theory Spec2Isabelle
  imports Main "HOL-Library.Multiset"
begin

section \<open>JavaScript values\<close>

text \<open>
  A JavaScript string is a sequence of UTF-16 code units; the Japanese literals of the
  source are written as their code units. Property names read by the source are plain
  ASCII and are kept as HOL strings.
\<close>

type_synonym jstring = "nat list"

definition ascii :: "string \<Rightarrow> jstring" where
  "ascii s = map of_char s"

text \<open>
  The values that reach the code: what \<open>JSON.parse\<close> produces (null, booleans, numbers,
  strings, arrays, objects), \<open>undefined\<close> for an absent property, and \<open>Date\<close> objects
  (\<open>None\<close> is the Invalid Date, whose time value is NaN). Numbers are the integral ones.
\<close>

datatype jsval =
    JUndefined
  | JNull
  | JBool bool
  | JNum int
  | JStr jstring
  | JArr "jsval list"
  | JObj "(string \<times> jsval) list"
  | JDate "int option"

fun truthy :: "jsval \<Rightarrow> bool" where
  "truthy JUndefined = False"
| "truthy JNull = False"
| "truthy (JBool b) = b"
| "truthy (JNum n) = (n \<noteq> 0)"
| "truthy (JStr s) = (s \<noteq> [])"
| "truthy (JArr xs) = True"
| "truthy (JObj kvs) = True"
| "truthy (JDate t) = True"

datatype jstype = TUndefined | TObject | TBoolean | TNumber | TString

fun typeof :: "jsval \<Rightarrow> jstype" where
  "typeof JUndefined = TUndefined"
| "typeof JNull = TObject"
| "typeof (JBool b) = TBoolean"
| "typeof (JNum n) = TNumber"
| "typeof (JStr s) = TString"
| "typeof (JArr xs) = TObject"
| "typeof (JObj kvs) = TObject"
| "typeof (JDate t) = TObject"

text \<open>
  Reading one of the properties \<open>_id\<close>, \<open>title\<close>, \<open>link\<close>, \<open>tags\<close>, \<open>important\<close>,
  \<open>created\<close>, \<open>items\<close>, \<open>count\<close>: only a parsed object can own them, every other
  value yields \<open>undefined\<close>.
\<close>

fun get_prop :: "jsval \<Rightarrow> string \<Rightarrow> jsval" where
  "get_prop (JObj kvs) k = (case map_of kvs k of None \<Rightarrow> JUndefined | Some v \<Rightarrow> v)"
| "get_prop v k = JUndefined"

datatype field_error =
    IdRequired
  | UrlRequired
  | TitleNotString
  | FolderNotString
  | FavoriteNotBoolean
  | CreatedAtInvalid
  | UrlMalformed

datatype message =
    ItemInvalid
  | IdMissing
  | LinkMissing
  | ValidationFailed "field_error list"
  | ItemsNotArray
  | ResponseFormatInvalid
  | Upstream nat
  | NetworkUnreachable

datatype js_error = Error message | TypeError

text \<open>
  The built-ins of the host that the source calls: the clock, the \<open>Date\<close> and \<open>URL\<close>
  constructors, numeric coercion of non-primitive values, the collation behind
  \<open>localeCompare(b, 'ja')\<close> and the local-time getters of a \<open>Date\<close>.
\<close>

record platform =
  now :: int
  newDate :: "jsval \<Rightarrow> int option"
  newURL_ok :: "jsval \<Rightarrow> bool"
  toNumber :: "jsval \<Rightarrow> int option"
  localeCompare :: "jstring \<Rightarrow> jstring \<Rightarrow> int"
  getFullYear :: "int \<Rightarrow> int"
  getMonth :: "int \<Rightarrow> nat"
  getDate :: "int \<Rightarrow> nat"

section \<open>The bookmark model\<close>

definition untitled :: jstring where
  "untitled = [12479, 12452, 12488, 12523, 12394, 12375]"

definition unsorted :: jstring where
  "unsorted = [26410, 20998, 39006]"

text \<open>The object handed to the constructor: any value may sit in any field.\<close>

record bookmarkData =
  d_id :: jsval
  d_title :: jsval
  d_url :: jsval
  d_folder :: jsval
  d_isFavorite :: jsval
  d_createdAt :: jsval

text \<open>An instance that passed \<open>validate\<close>: the checked fields carry their types.\<close>

record BookmarkModel =
  id_bm :: jsval
  title :: jstring
  url :: jstring
  folder :: jstring
  isFavorite :: bool
  createdAt :: int

fun valid_date :: "jsval \<Rightarrow> bool" where
  "valid_date (JDate (Some t)) = True"
| "valid_date v = False"

definition validate :: "platform \<Rightarrow> bookmarkData \<Rightarrow> field_error list" where
  "validate P d =
     (if \<not> truthy (d_id d) \<or> typeof (d_id d) \<noteq> TNumber then [IdRequired] else []) @
     (if \<not> truthy (d_url d) \<or> typeof (d_url d) \<noteq> TString then [UrlRequired] else []) @
     (if typeof (d_title d) \<noteq> TString then [TitleNotString] else []) @
     (if typeof (d_folder d) \<noteq> TString then [FolderNotString] else []) @
     (if typeof (d_isFavorite d) \<noteq> TBoolean then [FavoriteNotBoolean] else []) @
     (if \<not> valid_date (d_createdAt d) then [CreatedAtInvalid] else []) @
     (if truthy (d_url d) \<and> \<not> newURL_ok P (d_url d) then [UrlMalformed] else [])"

fun str_of :: "jsval \<Rightarrow> jstring" where
  "str_of (JStr s) = s"
| "str_of v = []"

fun bool_of :: "jsval \<Rightarrow> bool" where
  "bool_of (JBool b) = b"
| "bool_of v = False"

fun time_of :: "jsval \<Rightarrow> int" where
  "time_of (JDate (Some t)) = t"
| "time_of v = 0"

definition newBookmarkModel :: "platform \<Rightarrow> bookmarkData \<Rightarrow> js_error + BookmarkModel" where
  "newBookmarkModel P d =
     (case validate P d of
        [] \<Rightarrow> Inr \<lparr> id_bm = d_id d, title = str_of (d_title d), url = str_of (d_url d),
                    folder = str_of (d_folder d), isFavorite = bool_of (d_isFavorite d),
                    createdAt = time_of (d_createdAt d) \<rparr>
      | e # es \<Rightarrow> Inl (Error (ValidationFailed (e # es))))"

text \<open>
  \<open>tags.at(0)\<close>: arrays and strings have \<open>at\<close>; reading it off \<open>undefined\<close> or \<open>null\<close>
  and calling a missing \<open>at\<close> on any other value both raise a TypeError.
\<close>

fun at0 :: "jsval \<Rightarrow> js_error + jsval" where
  "at0 (JArr xs) = Inr (case xs of [] \<Rightarrow> JUndefined | x # rest \<Rightarrow> x)"
| "at0 (JStr s) = Inr (case s of [] \<Rightarrow> JUndefined | c # rest \<Rightarrow> JStr [c])"
| "at0 v = Inl TypeError"

fun nullish_or :: "jsval \<Rightarrow> jsval \<Rightarrow> jsval" where
  "nullish_or JUndefined d = d"
| "nullish_or JNull d = d"
| "nullish_or v d = v"

definition fromRaindropApiResponse :: "platform \<Rightarrow> jsval \<Rightarrow> js_error + BookmarkModel" where
  "fromRaindropApiResponse P apiItem =
     (if \<not> truthy apiItem \<or> typeof apiItem \<noteq> TObject then Inl (Error ItemInvalid)
      else if \<not> truthy (get_prop apiItem ''_id'') then Inl (Error IdMissing)
      else if \<not> truthy (get_prop apiItem ''link'') then Inl (Error LinkMissing)
      else
        (case at0 (get_prop apiItem ''tags'') of
           Inl e \<Rightarrow> Inl e
         | Inr tag \<Rightarrow>
             newBookmarkModel P
               \<lparr> d_id = get_prop apiItem ''_id'',
                 d_title = (if truthy (get_prop apiItem ''title'')
                            then get_prop apiItem ''title'' else JStr untitled),
                 d_url = get_prop apiItem ''link'',
                 d_folder = nullish_or tag (JStr unsorted),
                 d_isFavorite = JBool (truthy (get_prop apiItem ''important'')),
                 d_createdAt = (if truthy (get_prop apiItem ''created'')
                                then JDate (newDate P (get_prop apiItem ''created''))
                                else JDate (Some (now P))) \<rparr>))"

text \<open>
  The \<open>forEach\<close> of the batch converter: \<open>bookmarks\<close> and \<open>errors\<close> grow by \<open>push\<close>,
  the index counts every item.
\<close>

fun convert_each ::
  "platform \<Rightarrow> jsval list \<Rightarrow> nat \<Rightarrow> BookmarkModel list \<Rightarrow> (nat \<times> js_error) list
     \<Rightarrow> BookmarkModel list \<times> (nat \<times> js_error) list" where
  "convert_each P [] index bookmarks errors = (bookmarks, errors)"
| "convert_each P (item # rest) index bookmarks errors =
     (case fromRaindropApiResponse P item of
        Inr bookmark \<Rightarrow> convert_each P rest (Suc index) (bookmarks @ [bookmark]) errors
      | Inl error \<Rightarrow> convert_each P rest (Suc index) bookmarks (errors @ [(index, error)]))"

text \<open>What the code writes to the console, in order.\<close>

datatype log_entry =
    Warn_conversion "(nat \<times> js_error) list"
  | Warn_page_limit
  | Error_fetch js_error

definition fromRaindropApiResponseArray ::
  "platform \<Rightarrow> jsval \<Rightarrow> js_error + (BookmarkModel list \<times> log_entry list)" where
  "fromRaindropApiResponseArray P apiItems =
     (case apiItems of
        JArr items \<Rightarrow>
          (case convert_each P items 0 [] [] of
             (bookmarks, errors) \<Rightarrow>
               Inr (bookmarks, if errors \<noteq> [] then [Warn_conversion errors] else []))
      | _ \<Rightarrow> Inl (Error ItemsNotArray))"

section \<open>The paginated fetcher\<close>

text \<open>
  \<open>allBookmarks.length < count\<close> compares numbers: \<open>undefined\<close> coerces to NaN (every
  comparison is false), \<open>null\<close> to 0, a boolean to 0 or 1; the host coerces the rest.
\<close>

fun to_number :: "platform \<Rightarrow> jsval \<Rightarrow> int option" where
  "to_number P JUndefined = None"
| "to_number P JNull = Some 0"
| "to_number P (JBool b) = Some (if b then 1 else 0)"
| "to_number P (JNum n) = Some n"
| "to_number P v = toNumber P v"

definition length_lt :: "platform \<Rightarrow> nat \<Rightarrow> jsval \<Rightarrow> bool" where
  "length_lt P n v = (case to_number P v of None \<Rightarrow> False | Some c \<Rightarrow> int n < c)"

fun is_array :: "jsval \<Rightarrow> bool" where
  "is_array (JArr xs) = True"
| "is_array v = False"

fun array_length :: "jsval \<Rightarrow> nat" where
  "array_length (JArr xs) = length xs"
| "array_length v = 0"

definition perPage :: nat where
  "perPage = 50"

text \<open>
  The \<open>while\<close> loop of \<open>getRecentBookmarks\<close>. The client is the awaited
  \<open>this.client.get\<close> as a function of the requested page index (the other query
  parameters are the same in every request of a run): \<open>Inl\<close> is a rejected request,
  \<open>Inr\<close> carries \<open>response.data\<close>. The result is what the call returns or throws, the
  console output, and the page indices requested, in order.
\<close>

function fetch_pages ::
  "platform \<Rightarrow> (nat \<Rightarrow> js_error + jsval) \<Rightarrow> nat \<Rightarrow> BookmarkModel list \<Rightarrow> log_entry list
     \<Rightarrow> (js_error + BookmarkModel list) \<times> log_entry list \<times> nat list" where
  "fetch_pages P client page allBookmarks console =
     (case client page of
        Inl e \<Rightarrow> (Inl e, console, [page])
      | Inr data \<Rightarrow>
          if data = JUndefined \<or> data = JNull then (Inl TypeError, console, [page])
          else if \<not> truthy (get_prop data ''items'') \<or> \<not> is_array (get_prop data ''items'')
          then (Inl (Error ResponseFormatInvalid), console, [page])
          else
            (case fromRaindropApiResponseArray P (get_prop data ''items'') of
               Inl e \<Rightarrow> (Inl e, console, [page])
             | Inr (parsedBookmarks, warnings) \<Rightarrow>
                 let allBookmarks' = allBookmarks @ parsedBookmarks;
                     hasMorePages =
                       (array_length (get_prop data ''items'') = perPage \<and>
                        length_lt P (length allBookmarks') (get_prop data ''count''))
                 in
                   if Suc page > 100
                   then (Inr allBookmarks', console @ warnings @ [Warn_page_limit], [page])
                   else if hasMorePages
                   then
                     (case fetch_pages P client (Suc page) allBookmarks' (console @ warnings) of
                        (result, console', pages) \<Rightarrow> (result, console', page # pages))
                   else (Inr allBookmarks', console @ warnings, [page])))"
  by pat_completeness auto
termination
  by (relation "measure (\<lambda>(P, client, page, allBookmarks, console). 101 - page)") auto

declare fetch_pages.simps [simp del]

definition getRecentBookmarks ::
  "platform \<Rightarrow> (nat \<Rightarrow> js_error + jsval)
     \<Rightarrow> (js_error + BookmarkModel list) \<times> log_entry list \<times> nat list" where
  "getRecentBookmarks P client =
     (case fetch_pages P client 0 [] [] of
        (Inl e, console, pages) \<Rightarrow> (Inl e, console @ [Error_fetch e], pages)
      | (Inr allBookmarks, console, pages) \<Rightarrow> (Inr allBookmarks, console, pages))"

definition requested_pages :: "platform \<Rightarrow> (nat \<Rightarrow> js_error + jsval) \<Rightarrow> nat list" where
  "requested_pages P client = snd (snd (getRecentBookmarks P client))"

section \<open>The digest formatter\<close>

fun decimal :: "nat \<Rightarrow> jstring" where
  "decimal n = (if n < 10 then [48 + n] else decimal (n div 10) @ [48 + n mod 10])"

declare decimal.simps [simp del]

definition string_of_int :: "int \<Rightarrow> jstring" where
  "string_of_int i = (if i < 0 then 45 # decimal (nat (- i)) else decimal (nat i))"

definition padStart :: "nat \<Rightarrow> nat \<Rightarrow> jstring \<Rightarrow> jstring" where
  "padStart n c s = replicate (n - length s) c @ s"

fun join :: "'a list \<Rightarrow> 'a list list \<Rightarrow> 'a list" where
  "join sep [] = []"
| "join sep [x] = x"
| "join sep (x # y # rest) = x @ sep @ join sep (y # rest)"

text \<open>
  A plain object with string keys, as the list of its own properties in creation order.
  \<open>Object.keys\<close> and \<open>Object.entries\<close> list the array-index keys first, in ascending
  numeric order, and the other keys after them in creation order. A lookup that finds no
  own property falls through to \<open>Object.prototype\<close>.
\<close>

type_synonym 'v js_object = "(jstring \<times> 'v) list"

definition object_prototype_keys :: "jstring list" where
  "object_prototype_keys = map ascii
     [''constructor'', ''__defineGetter__'', ''__defineSetter__'', ''hasOwnProperty'',
      ''__lookupGetter__'', ''__lookupSetter__'', ''isPrototypeOf'', ''propertyIsEnumerable'',
      ''toString'', ''valueOf'', ''__proto__'', ''toLocaleString'']"

definition is_digit :: "nat \<Rightarrow> bool" where
  "is_digit c = (48 \<le> c \<and> c \<le> 57)"

definition index_value :: "jstring \<Rightarrow> int" where
  "index_value k = foldl (\<lambda>acc c. 10 * acc + (int c - 48)) 0 k"

definition is_array_index :: "jstring \<Rightarrow> bool" where
  "is_array_index k =
     (case k of
        [] \<Rightarrow> False
      | c # cs \<Rightarrow>
          list_all is_digit k \<and> (if c = 48 then cs = [] else True) \<and>
          index_value k < 4294967295)"

definition entries :: "'v js_object \<Rightarrow> (jstring \<times> 'v) list" where
  "entries obj =
     sort_key (\<lambda>kv. index_value (fst kv)) (filter (\<lambda>kv. is_array_index (fst kv)) obj) @
     filter (\<lambda>kv. \<not> is_array_index (fst kv)) obj"

definition keys :: "'v js_object \<Rightarrow> jstring list" where
  "keys obj = map fst (entries obj)"

definition obj_set :: "'v js_object \<Rightarrow> jstring \<Rightarrow> 'v \<Rightarrow> 'v js_object" where
  "obj_set obj k v =
     (if k \<in> fst ` set obj then map (\<lambda>kv. if fst kv = k then (k, v) else kv) obj
      else obj @ [(k, v)])"

text \<open>
  \<open>Array.prototype.sort\<close> with a comparator is stable; for a consistent comparator its
  result is the one of a stable insertion sort.
\<close>

fun insert_by :: "('a \<Rightarrow> 'a \<Rightarrow> int) \<Rightarrow> 'a \<Rightarrow> 'a list \<Rightarrow> 'a list" where
  "insert_by cmp x [] = [x]"
| "insert_by cmp x (y # ys) = (if cmp x y \<le> 0 then x # y # ys else y # insert_by cmp x ys)"

definition sort_by :: "('a \<Rightarrow> 'a \<Rightarrow> int) \<Rightarrow> 'a list \<Rightarrow> 'a list" where
  "sort_by cmp xs = foldr (insert_by cmp) xs []"

text \<open>
  The first \<open>forEach\<close> of \<open>#groupBookmarksByFolder\<close>. \<open>grouped[folderName]\<close> is truthy
  when the key is an own property or a property of \<open>Object.prototype\<close>; in the second
  case no array is created and \<open>push\<close> is not a function.
\<close>

fun group_each ::
  "BookmarkModel list \<Rightarrow> BookmarkModel list js_object
     \<Rightarrow> js_error + BookmarkModel list js_object" where
  "group_each [] grouped = Inr grouped"
| "group_each (bookmark # rest) grouped =
     (let folderName = (if folder bookmark \<noteq> [] then folder bookmark else unsorted);
          grouped1 =
            (if map_of grouped folderName = None \<and> folderName \<notin> set object_prototype_keys
             then obj_set grouped folderName [] else grouped)
      in case map_of grouped1 folderName of
           None \<Rightarrow> Inl TypeError
         | Some members \<Rightarrow> group_each rest (obj_set grouped1 folderName (members @ [bookmark])))"

definition by_createdAt_desc :: "BookmarkModel \<Rightarrow> BookmarkModel \<Rightarrow> int" where
  "by_createdAt_desc a b = createdAt b - createdAt a"

definition groupBookmarksByFolder ::
  "platform \<Rightarrow> BookmarkModel list \<Rightarrow> js_error + BookmarkModel list js_object" where
  "groupBookmarksByFolder P bookmarks =
     (case group_each bookmarks [] of
        Inl e \<Rightarrow> Inl e
      | Inr grouped \<Rightarrow>
          Inr (foldl
                 (\<lambda>sortedGrouped folderName.
                    obj_set sortedGrouped folderName
                      (sort_by by_createdAt_desc
                         (case map_of grouped folderName of None \<Rightarrow> [] | Some members \<Rightarrow> members)))
                 [] (sort_by (localeCompare P) (keys grouped))))"

definition favorite_mark :: jstring where
  "favorite_mark = ascii '' %{color: red}'' @ [9733] @ ascii ''%''"

definition formatSingleBookmark :: "BookmarkModel \<Rightarrow> jstring" where
  "formatSingleBookmark bookmark =
     ascii ''* '' @ [34] @ title bookmark @ [34] @ ascii '':'' @ url bookmark @
     (if isFavorite bookmark then favorite_mark else [])"

definition formatFolderSection :: "jstring \<Rightarrow> BookmarkModel list \<Rightarrow> jstring" where
  "formatFolderSection folderName bookmarks =
     foldl (\<lambda>section bookmark. section @ [10] @ formatSingleBookmark bookmark)
       (ascii ''h4. '' @ folderName) bookmarks"

definition digest_title :: jstring where
  "digest_title = [20170, 36913, 12398, 12502, 12483, 12463, 12510, 12540, 12463, 12480,
                   12452, 12472, 12455, 12473, 12488]"

definition total_prefix :: jstring where
  "total_prefix = [21512, 35336, 32]"

definition total_suffix :: jstring where
  "total_suffix = [32, 20214, 12398, 12502, 12483, 12463, 12510, 12540, 12463, 12364, 35211,
                   12388, 12363, 12426, 12414, 12375, 12383, 12290]"

definition no_bookmarks_text :: jstring where
  "no_bookmarks_text = [20170, 36913, 12399, 26032, 12375, 12356, 12502, 12483, 12463, 12510,
                        12540, 12463, 12364, 12354, 12426, 12414, 12379, 12435, 12391, 12375,
                        12383, 12290]"

definition subject_prefix :: jstring where
  "subject_prefix = [36913, 27425, 12502, 12483, 12463, 12510, 12540, 12463, 12480, 12452,
                     12472, 12455, 12473, 12488, 32, 45, 32]"

text \<open>\<open>dateRange\<close> is a string or \<open>null\<close>; the empty string is falsy like \<open>null\<close>.\<close>

definition range_suffix :: "jstring option \<Rightarrow> jstring" where
  "range_suffix dateRange =
     (case dateRange of
        None \<Rightarrow> []
      | Some r \<Rightarrow> if r \<noteq> [] then ascii '' ('' @ r @ ascii '')'' else [])"

definition formatHeader :: "nat \<Rightarrow> jstring option \<Rightarrow> jstring" where
  "formatHeader bookmarkCount dateRange =
     digest_title @ range_suffix dateRange @
     [10, 10] @ total_prefix @ decimal bookmarkCount @ total_suffix"

definition formatEmptyMessage :: "jstring option \<Rightarrow> jstring" where
  "formatEmptyMessage dateRange =
     digest_title @ range_suffix dateRange @ [10, 10] @ no_bookmarks_text"

record format_options =
  dateRange :: "jstring option"
  includeHeader :: bool

text \<open>The \<open>bookmarks\<close> argument is an array, or \<open>None\<close> for \<open>null\<close> and \<open>undefined\<close>.\<close>

definition formatBookmarksToEmailBody ::
  "platform \<Rightarrow> BookmarkModel list option \<Rightarrow> format_options \<Rightarrow> js_error + jstring" where
  "formatBookmarksToEmailBody P bookmarks options =
     (case bookmarks of
        None \<Rightarrow> Inr (formatEmptyMessage (dateRange options))
      | Some bs \<Rightarrow>
          if length bs = 0 then Inr (formatEmptyMessage (dateRange options))
          else
            (case groupBookmarksByFolder P bs of
               Inl e \<Rightarrow> Inl e
             | Inr groupedBookmarks \<Rightarrow>
                 Inr ((if includeHeader options
                       then formatHeader (length bs) (dateRange options) @ [10, 10] else []) @
                      join [10, 10]
                        (map (\<lambda>(folderName, folderBookmarks).
                                formatFolderSection folderName folderBookmarks)
                           (entries groupedBookmarks)))))"

text \<open>
  \<open>endDate\<close> is a valid \<open>Date\<close>, given by its time value, or \<open>None\<close> for \<open>null\<close>; a
  \<open>Date\<close> object is truthy whatever its time value.
\<close>

definition generateEmailSubject :: "platform \<Rightarrow> int option \<Rightarrow> int option \<Rightarrow> jstring" where
  "generateEmailSubject P startDate endDate =
     (let targetDate = (case endDate of Some t \<Rightarrow> t | None \<Rightarrow> now P);
          year = getFullYear P targetDate;
          month = padStart 2 48 (decimal (getMonth P targetDate + 1));
          day = padStart 2 48 (decimal (getDate P targetDate))
      in subject_prefix @ string_of_int year @ [47] @ month @ [47] @ day)"

section \<open>A concrete host\<close>

text \<open>
  A host on which the definitions can be run: its local time zone is UTC, its collation
  is code-unit order, its \<open>Date\<close> constructor takes a time value in milliseconds and its
  \<open>URL\<close> constructor accepts an \<open>https\<close> address. On the inputs evaluated in this theory
  it answers as Node.js does.
\<close>

fun compare_code_units :: "jstring \<Rightarrow> jstring \<Rightarrow> int" where
  "compare_code_units [] [] = 0"
| "compare_code_units [] (y # ys) = - 1"
| "compare_code_units (x # xs) [] = 1"
| "compare_code_units (x # xs) (y # ys) =
     (if x < y then - 1 else if y < x then 1 else compare_code_units xs ys)"

text \<open>
  The civil date of a day number (days since 1970-01-01): the day within its 400-year
  era, the year within the era, the day within the year counted from the first of March,
  and the month counted from March.
\<close>

definition day_of_era :: "int \<Rightarrow> int" where
  "day_of_era days = (days + 719468) mod 146097"

definition year_of_era :: "int \<Rightarrow> int" where
  "year_of_era doe = (doe - doe div 1460 + doe div 36524 - doe div 146096) div 365"

definition day_of_year :: "int \<Rightarrow> int" where
  "day_of_year doe =
     doe - (365 * year_of_era doe + year_of_era doe div 4 - year_of_era doe div 100)"

definition month_from_march :: "int \<Rightarrow> int" where
  "month_from_march days = (5 * day_of_year (day_of_era days) + 2) div 153"

definition utc_year :: "int \<Rightarrow> int" where
  "utc_year days =
     year_of_era (day_of_era days) + ((days + 719468) div 146097) * 400 +
     (if month_from_march days < 10 then 0 else 1)"

definition utc_month :: "int \<Rightarrow> nat" where
  "utc_month days =
     nat (if month_from_march days < 10 then month_from_march days + 2
          else month_from_march days - 10)"

definition utc_date :: "int \<Rightarrow> nat" where
  "utc_date days =
     nat (day_of_year (day_of_era days) - (153 * month_from_march days + 2) div 5 + 1)"

definition utc_host :: platform where
  "utc_host =
     \<lparr> now = 1709632800000,
       newDate = (\<lambda>v. case v of
                         JNum n \<Rightarrow> if \<bar>n\<bar> \<le> 8640000000000000 then Some n else None
                       | _ \<Rightarrow> None),
       newURL_ok = (\<lambda>v. case v of
                           JStr s \<Rightarrow> take 8 s = ascii ''https://'' \<and> 8 < length s
                         | _ \<Rightarrow> False),
       toNumber = (\<lambda>v. None),
       localeCompare = compare_code_units,
       getFullYear = (\<lambda>t. utc_year (t div 86400000)),
       getMonth = (\<lambda>t. utc_month (t div 86400000)),
       getDate = (\<lambda>t. utc_date (t div 86400000)) \<rparr>"

definition sample_item :: jsval where
  "sample_item =
     JObj [(''_id'', JNum 1), (''title'', JStr (ascii ''Example'')),
           (''link'', JStr (ascii ''https://example.com'')),
           (''tags'', JArr [JStr (ascii ''dev'')]), (''important'', JBool True),
           (''created'', JNum 1704067200000)]"

definition sample_bookmark :: BookmarkModel where
  "sample_bookmark =
     \<lparr> id_bm = JNum 1, title = ascii ''Example'', url = ascii ''https://example.com'',
       folder = ascii ''dev'', isFavorite = True, createdAt = 1704067200000 \<rparr>"

section \<open>Notions used to state the properties\<close>

text \<open>The records of the items that convert, in the order of the items.\<close>

definition successes :: "platform \<Rightarrow> jsval list \<Rightarrow> BookmarkModel list" where
  "successes P items =
     concat (map (\<lambda>item. case fromRaindropApiResponse P item of
                            Inr b \<Rightarrow> [b] | Inl e \<Rightarrow> []) items)"

text \<open>The failures of a batch, each with the position of its item, counted from \<open>n\<close>.\<close>

definition failures_from :: "platform \<Rightarrow> nat \<Rightarrow> jsval list \<Rightarrow> (nat \<times> js_error) list" where
  "failures_from P n items =
     concat (map (\<lambda>(i, item). case fromRaindropApiResponse P item of
                                 Inr b \<Rightarrow> [] | Inl e \<Rightarrow> [(i, e)]) (enumerate n items))"

definition missing_id_or_link :: "jsval \<Rightarrow> bool" where
  "missing_id_or_link item =
     (\<not> truthy (get_prop item ''_id'') \<or> \<not> truthy (get_prop item ''link''))"

text \<open>
  What a run of the fetcher sees of the upstream: the body of page \<open>p\<close>, whether its
  item list is usable, its raw items, the records converted from the pages before \<open>p\<close>,
  and the two readings of the condition for going on after page \<open>p\<close>: with the count
  reported by page \<open>p\<close> itself, and with the count reported by page 0.
\<close>

definition page_data :: "(nat \<Rightarrow> js_error + jsval) \<Rightarrow> nat \<Rightarrow> jsval" where
  "page_data client p = (case client p of Inr data \<Rightarrow> data | Inl e \<Rightarrow> JUndefined)"

definition page_ok :: "(nat \<Rightarrow> js_error + jsval) \<Rightarrow> nat \<Rightarrow> bool" where
  "page_ok client p = is_array (get_prop (page_data client p) ''items'')"

definition page_items :: "(nat \<Rightarrow> js_error + jsval) \<Rightarrow> nat \<Rightarrow> jsval list" where
  "page_items client p =
     (case get_prop (page_data client p) ''items'' of JArr xs \<Rightarrow> xs | _ \<Rightarrow> [])"

definition records_before :: "platform \<Rightarrow> (nat \<Rightarrow> js_error + jsval) \<Rightarrow> nat \<Rightarrow> BookmarkModel list" where
  "records_before P client p =
     concat (map (\<lambda>q. successes P (page_items client q)) [0..<p])"

definition continues_by_own_count :: "platform \<Rightarrow> (nat \<Rightarrow> js_error + jsval) \<Rightarrow> nat \<Rightarrow> bool" where
  "continues_by_own_count P client p =
     (length (page_items client p) = 50 \<and>
      length_lt P (length (records_before P client (Suc p)))
        (get_prop (page_data client p) ''count''))"

definition continues_by_first_count :: "platform \<Rightarrow> (nat \<Rightarrow> js_error + jsval) \<Rightarrow> nat \<Rightarrow> bool" where
  "continues_by_first_count P client p =
     (length (page_items client p) = 50 \<and>
      length_lt P (length (records_before P client (Suc p)))
        (get_prop (page_data client 0) ''count''))"

text \<open>A response body with the given items and total count.\<close>

definition page_body :: "jsval list \<Rightarrow> int \<Rightarrow> jsval" where
  "page_body items n = JObj [(''items'', JArr items), (''count'', JNum n)]"

text \<open>Raw items used for concrete evaluations.\<close>

definition item_without_id :: jsval where
  "item_without_id =
     JObj [(''title'', JStr (ascii ''No id'')), (''link'', JStr (ascii ''https://example.com''))]"

definition item_without_tags :: jsval where
  "item_without_tags =
     JObj [(''_id'', JNum 1), (''title'', JStr (ascii ''Example'')),
           (''link'', JStr (ascii ''https://example.com''))]"

definition item_with_string_id :: jsval where
  "item_with_string_id =
     JObj [(''_id'', JStr (ascii ''api-id-123'')), (''title'', JStr (ascii ''Example'')),
           (''link'', JStr (ascii ''https://example.com'')),
           (''tags'', JArr [JStr (ascii ''dev'')]), (''important'', JBool True)]"

text \<open>
  The number of pages a total count asks for, and an upstream that reports the count
  \<open>c\<close> on each of these pages, with 50 items on every page but the last and the
  remainder on the last; \<open>all_convert\<close> says that none of their items is dropped.
\<close>

definition pages_needed :: "nat \<Rightarrow> nat" where
  "pages_needed c = (c + 49) div 50"

definition uniform_upstream :: "(nat \<Rightarrow> js_error + jsval) \<Rightarrow> nat \<Rightarrow> bool" where
  "uniform_upstream client c =
     list_all
       (\<lambda>p. page_ok client p \<and>
            get_prop (page_data client p) ''count'' = JNum (int c) \<and>
            length (page_items client p) =
              (if Suc p < pages_needed c then 50 else c - 50 * (pages_needed c - 1)))
       [0..<pages_needed c]"

definition all_convert :: "platform \<Rightarrow> (nat \<Rightarrow> js_error + jsval) \<Rightarrow> nat \<Rightarrow> bool" where
  "all_convert P client c =
     list_all (\<lambda>p. failures_from P 0 (page_items client p) = []) [0..<pages_needed c]"

text \<open>Upstreams used for concrete evaluations.\<close>

definition always_full_client :: "nat \<Rightarrow> js_error + jsval" where
  "always_full_client p = Inr (page_body (replicate 50 sample_item) 1000000)"

definition drifting_client :: "nat \<Rightarrow> js_error + jsval" where
  "drifting_client p =
     (if p = 0 then Inr (page_body (replicate 50 sample_item) 60)
      else if p = 1 then Inr (page_body (replicate 50 sample_item) 1000)
      else Inr (page_body [] 1000))"

definition client_75 :: "nat \<Rightarrow> js_error + jsval" where
  "client_75 p =
     (if p = 0 then Inr (page_body (replicate 50 sample_item) 75)
      else if p = 1 then Inr (page_body (replicate 25 sample_item) 75)
      else Inr (page_body [] 75))"

definition client_6000 :: "nat \<Rightarrow> js_error + jsval" where
  "client_6000 p =
     (if p < 120 then Inr (page_body (replicate 50 sample_item) 6000)
      else Inr (page_body [] 6000))"

definition client_empty :: "nat \<Rightarrow> js_error + jsval" where
  "client_empty p = Inr (page_body [] 0)"

definition client_50_one_bad :: "nat \<Rightarrow> js_error + jsval" where
  "client_50_one_bad p =
     (if p = 0 then Inr (page_body (item_without_id # replicate 49 sample_item) 50)
      else Inr (page_body [] 50))"

text \<open>The warning, if any, that the conversion of page \<open>p\<close> writes to the console.\<close>

definition page_warnings :: "platform \<Rightarrow> (nat \<Rightarrow> js_error + jsval) \<Rightarrow> nat \<Rightarrow> log_entry list" where
  "page_warnings P client p =
     (if failures_from P 0 (page_items client p) = [] then []
      else [Warn_conversion (failures_from P 0 (page_items client p))])"

text \<open>
  The name a record is grouped under, the code unit of the star, the lines of a text
  (split at line feeds), and the two kinds of lines of a digest body.
\<close>

definition folder_name :: "BookmarkModel \<Rightarrow> jstring" where
  "folder_name b = (if folder b \<noteq> [] then folder b else unsorted)"

definition star :: nat where
  "star = 9733"

fun lines_of :: "jstring \<Rightarrow> jstring list" where
  "lines_of [] = [[]]"
| "lines_of (c # cs) =
     (if c = 10 then [] # lines_of cs
      else (case lines_of cs of [] \<Rightarrow> [[c]] | l # ls \<Rightarrow> (c # l) # ls))"

definition is_bookmark_line :: "jstring \<Rightarrow> bool" where
  "is_bookmark_line l = (take 3 l = [42, 32, 34])"

definition is_heading_line :: "jstring \<Rightarrow> bool" where
  "is_heading_line l = (take 4 l = ascii ''h4. '')"

text \<open>Records and options used for concrete evaluations.\<close>

definition bookmark_in :: "jstring \<Rightarrow> jstring \<Rightarrow> int \<Rightarrow> bool \<Rightarrow> BookmarkModel" where
  "bookmark_in f t created fav =
     \<lparr> id_bm = JNum 1, title = t, url = ascii ''https://example.com'', folder = f,
       isFavorite = fav, createdAt = created \<rparr>"

definition no_header :: format_options where
  "no_header = \<lparr> dateRange = None, includeHeader = False \<rparr>"

definition with_header :: format_options where
  "with_header = \<lparr> dateRange = None, includeHeader = True \<rparr>"

text \<open>The array stored under a key of the grouping object (empty when there is none).\<close>

definition members :: "'v list js_object \<Rightarrow> jstring \<Rightarrow> 'v list" where
  "members g k = (case map_of g k of None \<Rightarrow> [] | Some m \<Rightarrow> m)"

text \<open>
  The lines of one folder section (its heading, then one line per record) and the lines
  of the header.
\<close>

definition section_lines :: "jstring \<times> BookmarkModel list \<Rightarrow> jstring list" where
  "section_lines e = (ascii ''h4. '' @ fst e) # map formatSingleBookmark (snd e)"

definition header_lines :: "nat \<Rightarrow> jstring option \<Rightarrow> jstring list" where
  "header_lines n r =
     [digest_title @ range_suffix r, [], total_prefix @ decimal n @ total_suffix, []]"

text \<open>Records used for concrete evaluations.\<close>

definition bookmark_nine :: BookmarkModel where
  "bookmark_nine = bookmark_in (ascii ''9'') (ascii ''Nine'') 1704103200000 True"

definition bookmark_ten :: BookmarkModel where
  "bookmark_ten = bookmark_in (ascii ''10'') (ascii ''Ten'') 1704106800000 False"

definition bookmark_no_folder :: BookmarkModel where
  "bookmark_no_folder = bookmark_in [] (ascii ''Loose'') 1704103200000 False"

definition bookmark_unsorted :: BookmarkModel where
  "bookmark_unsorted = bookmark_in unsorted (ascii ''Filed'') 1704106800000 False"

definition bookmark_constructor :: BookmarkModel where
  "bookmark_constructor =
     bookmark_in (ascii ''constructor'') (ascii ''Classes'') 1704103200000 False"

section \<open>Verified properties\<close>

subsection \<open>Batch conversion\<close>

lemma convert_each_eq:
  "convert_each P items n bs es = (bs @ successes P items, es @ failures_from P n items)"
  by (induction items arbitrary: n bs es)
     (auto simp: successes_def failures_from_def split: sum.splits)

lemma batch_eq:
  "fromRaindropApiResponseArray P (JArr items) =
     Inr (successes P items,
          if failures_from P 0 items = [] then []
          else [Warn_conversion (failures_from P 0 items)])"
  by (simp add: fromRaindropApiResponseArray_def convert_each_eq)

lemma missing_fails:
  "missing_id_or_link item \<Longrightarrow>
   fromRaindropApiResponse P item \<in>
     {Inl (Error ItemInvalid), Inl (Error IdMissing), Inl (Error LinkMissing)}"
  by (auto simp: missing_id_or_link_def fromRaindropApiResponse_def)

lemma successes_append: "successes P (xs @ ys) = successes P xs @ successes P ys"
  by (simp add: successes_def)

lemma successes_Cons:
  "successes P (x # xs) =
     (case fromRaindropApiResponse P x of Inr b \<Rightarrow> [b] | Inl e \<Rightarrow> []) @ successes P xs"
  by (simp add: successes_def)

lemma successes_Nil: "successes P [] = []"
  by (simp add: successes_def)

lemma failures_from_append:
  "failures_from P n (xs @ ys) = failures_from P n xs @ failures_from P (n + length xs) ys"
  by (simp add: failures_from_def enumerate_append_eq)

lemma failures_from_Cons:
  "failures_from P n (x # xs) =
     (case fromRaindropApiResponse P x of Inr b \<Rightarrow> [] | Inl e \<Rightarrow> [(n, e)]) @
     failures_from P (Suc n) xs"
  by (simp add: failures_from_def)

lemma failures_from_Nil: "failures_from P n [] = []"
  by (simp add: failures_from_def)

lemma sample_item_converts: "fromRaindropApiResponse utc_host sample_item = Inr sample_bookmark"
  by (simp add: fromRaindropApiResponse_def sample_item_def sample_bookmark_def
      newBookmarkModel_def validate_def utc_host_def ascii_def)

lemma item_without_id_fails:
  "fromRaindropApiResponse utc_host item_without_id = Inl (Error IdMissing)"
  by (simp add: item_without_id_def fromRaindropApiResponse_def)

text \<open>
  Claim C1. A raw item whose \<open>_id\<close> or \<open>link\<close> is missing (absent, \<open>null\<close> or otherwise
  falsy) makes \<open>fromRaindropApiResponse\<close> throw one of its three "malformed item" errors.
  In a batch, such an item at any position contributes nothing to the output, an item
  that converts contributes its record at its place between the records of the items
  before and after it, and the failure is listed with the position of the item and its
  reason. The batch call on an array never fails: it returns the records of the items
  that convert, in order, and at most one warning, which lists every failure.
\<close>

theorem toRecords_skips_items_missing_id_or_link:
  "(missing_id_or_link item \<longrightarrow>
      fromRaindropApiResponse P item \<in>
        {Inl (Error ItemInvalid), Inl (Error IdMissing), Inl (Error LinkMissing)} \<and>
      successes P (xs @ item # ys) = successes P xs @ successes P ys \<and>
      (\<exists>e. fromRaindropApiResponse P item = Inl e \<and>
           (length xs, e) \<in> set (failures_from P 0 (xs @ item # ys)))) \<and>
   (\<forall>b. fromRaindropApiResponse P item = Inr b \<longrightarrow>
        successes P (xs @ item # ys) = successes P xs @ b # successes P ys) \<and>
   fromRaindropApiResponseArray P (JArr items) =
     Inr (successes P items,
          if failures_from P 0 items = [] then []
          else [Warn_conversion (failures_from P 0 items)])"
proof (intro conjI impI allI)
  assume m: "missing_id_or_link item"
  from missing_fails[OF m, of P] obtain e where e: "fromRaindropApiResponse P item = Inl e"
    by auto
  show "fromRaindropApiResponse P item \<in>
      {Inl (Error ItemInvalid), Inl (Error IdMissing), Inl (Error LinkMissing)}"
    by (rule missing_fails[OF m])
  show "successes P (xs @ item # ys) = successes P xs @ successes P ys"
    by (simp add: successes_append successes_Cons e)
  show "\<exists>e. fromRaindropApiResponse P item = Inl e \<and>
      (length xs, e) \<in> set (failures_from P 0 (xs @ item # ys))"
    by (rule exI[of _ e]) (simp add: e failures_from_append failures_from_Cons)
next
  fix b assume "fromRaindropApiResponse P item = Inr b"
  then show "successes P (xs @ item # ys) = successes P xs @ b # successes P ys"
    by (simp add: successes_append successes_Cons)
next
  show "fromRaindropApiResponseArray P (JArr items) =
      Inr (successes P items,
           if failures_from P 0 items = [] then []
           else [Warn_conversion (failures_from P 0 items)])"
    by (rule batch_eq)
qed

theorem toRecords_skips_items_missing_id_or_link_witness:
  "missing_id_or_link item_without_id \<and>
   fromRaindropApiResponse utc_host item_without_id = Inl (Error IdMissing) \<and>
   fromRaindropApiResponse utc_host sample_item = Inr sample_bookmark \<and>
   fromRaindropApiResponseArray utc_host (JArr [sample_item, item_without_id, sample_item]) =
     Inr ([sample_bookmark, sample_bookmark], [Warn_conversion [(1, Error IdMissing)]])"
proof -
  have m: "missing_id_or_link item_without_id"
    by (simp add: missing_id_or_link_def item_without_id_def)
  show ?thesis
    using toRecords_skips_items_missing_id_or_link
            [of item_without_id utc_host "[sample_item]" "[sample_item]"
                "[sample_item, item_without_id, sample_item]"] m
    by (simp add: successes_Cons successes_Nil failures_from_Cons failures_from_Nil
        sample_item_converts item_without_id_fails)
qed

subsection \<open>Conversion of a single item\<close>

text \<open>
  Claim C5. The claim asks that an item without a \<open>tags\<close> field still converts, with the
  placeholder as its folder. In the code \<open>apiItem.tags.at(0)\<close> is evaluated before the
  \<open>??\<close> fallback applies, so on an item that has an id and a link but no \<open>tags\<close> the
  conversion raises a TypeError, on every host.
\<close>

theorem toRecord_without_tags_raises_TypeError:
  assumes "truthy (get_prop item ''_id'')" and "truthy (get_prop item ''link'')"
      and "get_prop item ''tags'' = JUndefined"
  shows "fromRaindropApiResponse P item = Inl TypeError"
proof -
  from assms(1) obtain kvs where "item = JObj kvs" by (cases item) auto
  with assms show ?thesis by (simp add: fromRaindropApiResponse_def)
qed

theorem toRecord_without_tags_raises_TypeError_witness:
  "truthy (get_prop item_without_tags ''_id'') \<and>
   truthy (get_prop item_without_tags ''link'') \<and>
   get_prop item_without_tags ''tags'' = JUndefined \<and>
   fromRaindropApiResponse utc_host item_without_tags = Inl TypeError"
  using toRecord_without_tags_raises_TypeError[of item_without_tags utc_host]
  by (simp add: item_without_tags_def ascii_def)

text \<open>
  Where the item has tags and converts, the folder is the first tag, the placeholder
  stands in for an empty tag list, and the id is carried over unchanged.
\<close>

lemma converted_folder_and_id:
  assumes "fromRaindropApiResponse P item = Inr b"
  shows "(\<forall>s rest. get_prop item ''tags'' = JArr (JStr s # rest) \<longrightarrow> folder b = s) \<and>
         (get_prop item ''tags'' = JArr [] \<longrightarrow> folder b = unsorted) \<and>
         id_bm b = get_prop item ''_id''"
  using assms
  by (auto simp: fromRaindropApiResponse_def newBookmarkModel_def
      split: sum.splits list.splits if_splits)

text \<open>
  Claim C6. The claim asks that a non-empty string id is accepted and carried over. The
  code's \<open>validate\<close> requires \<open>typeof id === 'number'\<close>: every item whose \<open>_id\<close> is a
  string is rejected, and one whose other fields are all valid is rejected with the
  single validation error about the id.
\<close>

theorem toRecord_rejects_string_id:
  assumes "typeof (get_prop item ''_id'') = TString"
  shows "\<exists>e. fromRaindropApiResponse P item = Inl e"
proof -
  have "validate P d \<noteq> []" if "d_id d = get_prop item ''_id''" for d
    using that assms by (simp add: validate_def)
  then show ?thesis
    by (auto simp: fromRaindropApiResponse_def newBookmarkModel_def
        split: sum.splits list.splits)
qed

theorem toRecord_rejects_string_id_witness:
  "typeof (get_prop item_with_string_id ''_id'') = TString \<and>
   fromRaindropApiResponse utc_host item_with_string_id =
     Inl (Error (ValidationFailed [IdRequired]))"
  using toRecord_rejects_string_id[of item_with_string_id utc_host]
  by (simp add: fromRaindropApiResponse_def item_with_string_id_def ascii_def
      newBookmarkModel_def validate_def utc_host_def)

subsection \<open>Pagination\<close>

lemma page_ok_D:
  "page_ok client p \<Longrightarrow>
   \<exists>data. client p = Inr data \<and> data \<noteq> JUndefined \<and> data \<noteq> JNull \<and>
          get_prop data ''items'' = JArr (page_items client p) \<and> page_data client p = data"
  by (cases "client p"; cases "get_prop (page_data client p) ''items''")
     (auto simp: page_ok_def page_data_def page_items_def)

lemma fetch_pages_ok:
  assumes "page_ok client page"
  shows "fetch_pages P client page acc lg =
     (if 100 < Suc page
      then (Inr (acc @ successes P (page_items client page)),
            lg @ page_warnings P client page @ [Warn_page_limit], [page])
      else if length (page_items client page) = 50 \<and>
              length_lt P (length (acc @ successes P (page_items client page)))
                (get_prop (page_data client page) ''count'')
      then (case fetch_pages P client (Suc page) (acc @ successes P (page_items client page))
                   (lg @ page_warnings P client page) of
              (r, c, ps) \<Rightarrow> (r, c, page # ps))
      else (Inr (acc @ successes P (page_items client page)),
            lg @ page_warnings P client page, [page]))"
proof -
  from page_ok_D[OF assms] obtain data where d: "client page = Inr data" "data \<noteq> JUndefined"
    "data \<noteq> JNull" "get_prop data ''items'' = JArr (page_items client page)"
    "page_data client page = data" by blast
  show ?thesis
    by (subst fetch_pages.simps) (simp add: d batch_eq perPage_def Let_def page_warnings_def)
qed

lemma fetch_pages_not_ok:
  assumes "\<not> page_ok client page"
  shows "snd (snd (fetch_pages P client page acc lg)) = [page]"
proof (cases "client page")
  case (Inl e) then show ?thesis by (subst fetch_pages.simps) simp
next
  case (Inr data)
  with assms have "\<not> is_array (get_prop data ''items'')" by (simp add: page_ok_def page_data_def)
  with Inr show ?thesis by (subst fetch_pages.simps) simp
qed

lemma requested_pages_eq:
  "requested_pages P client = snd (snd (fetch_pages P client 0 [] []))"
  by (simp add: requested_pages_def getRecentBookmarks_def split: prod.splits sum.splits)

lemma records_before_Suc:
  "records_before P client (Suc p) = records_before P client p @ successes P (page_items client p)"
  by (simp add: records_before_def)

lemma pages_char:
  "101 - page = k \<Longrightarrow> snd (snd (fetch_pages P client page (records_before P client page) lg)) = ps \<Longrightarrow>
     ps \<noteq> [] \<and> hd ps = page \<and> (\<forall>p\<in>set ps. page \<le> p) \<and>
     (\<forall>p\<in>set ps. Suc p \<le> 100 \<longrightarrow> page_ok client p \<longrightarrow>
         (Suc p \<in> set ps \<longleftrightarrow> continues_by_own_count P client p))"
proof (induction k arbitrary: page lg ps)
  case 0
  then have big: "100 < Suc page" by simp
  show ?case
  proof (cases "page_ok client page")
    case True
    with 0 big show ?thesis by (auto simp: fetch_pages_ok)
  next
    case False
    with 0 show ?thesis by (auto simp: fetch_pages_not_ok)
  qed
next
  case (Suc k)
  show ?case
  proof (cases "page_ok client page")
    case False
    with Suc.prems show ?thesis by (auto simp: fetch_pages_not_ok)
  next
    case ok: True
    show ?thesis
    proof (cases "100 < Suc page")
      case True
      with Suc.prems ok show ?thesis by (auto simp: fetch_pages_ok)
    next
      case small: False
      show ?thesis
      proof (cases "continues_by_own_count P client page")
        case False
        with Suc.prems ok small show ?thesis
          by (auto simp: fetch_pages_ok continues_by_own_count_def records_before_Suc)
      next
        case True
        obtain r c ps' where f: "fetch_pages P client (Suc page) (records_before P client (Suc page))
              (lg @ page_warnings P client page) = (r, c, ps')"
          by (cases "fetch_pages P client (Suc page) (records_before P client (Suc page))
              (lg @ page_warnings P client page)") auto
        have k: "101 - Suc page = k" using Suc.prems(1) by simp
        from Suc.IH[OF k, of "lg @ page_warnings P client page" ps'] f
        have ih: "ps' \<noteq> []" "hd ps' = Suc page" "\<forall>p\<in>set ps'. Suc page \<le> p"
          "\<forall>p\<in>set ps'. Suc p \<le> 100 \<longrightarrow> page_ok client p \<longrightarrow>
              (Suc p \<in> set ps' \<longleftrightarrow> continues_by_own_count P client p)"
          by auto
        have ps: "ps = page # ps'"
          using Suc.prems(2) ok small True f
          by (simp add: fetch_pages_ok continues_by_own_count_def records_before_Suc)
        have "Suc page \<in> set ps'" using ih(1,2) by (metis hd_in_set)
        with ih True ps show ?thesis by auto
      qed
    qed
  qed
qed

lemma successes_replicate_sample:
  "successes utc_host (replicate n sample_item) = replicate n sample_bookmark"
  by (induction n) (simp_all add: successes_Nil successes_Cons sample_item_converts)

lemma failures_replicate_sample:
  "failures_from utc_host k (replicate n sample_item) = []"
  by (induction n arbitrary: k) (simp_all add: failures_from_Nil failures_from_Cons sample_item_converts)

lemma page_body_ok: "page_ok (\<lambda>p. Inr (page_body xs n)) q"
  by (simp add: page_ok_def page_data_def page_body_def)

lemma length_successes_le: "length (successes P xs) \<le> length xs"
  by (induction xs) (auto simp: successes_Nil successes_Cons split: sum.splits)

lemma length_successes_all:
  "failures_from P n xs = [] \<Longrightarrow> length (successes P xs) = length xs"
  by (induction xs arbitrary: n) (auto simp: successes_Nil successes_Cons failures_from_Cons failures_from_Nil split: sum.splits)

lemma all_full_run:
  assumes full: "\<And>p. p \<le> 100 \<Longrightarrow> page_ok client p \<and> length (page_items client p) = 50 \<and>
                  failures_from P 0 (page_items client p) = [] \<and>
                  get_prop (page_data client p) ''count'' = JNum c"
      and c: "5050 < c"
  shows "100 - page = k \<Longrightarrow> page \<le> 100 \<Longrightarrow> length acc = 50 * page \<Longrightarrow>
         fetch_pages P client page acc lg =
           (Inr (acc @ concat (map (\<lambda>q. successes P (page_items client q)) [page..<101])),
            lg @ [Warn_page_limit], [page..<101])"
proof (induction k arbitrary: page acc lg)
  case 0
  then have p: "page = 100" by simp
  from full[of 100] show ?case
    by (simp add: p fetch_pages_ok page_warnings_def)
next
  case (Suc k)
  then have p: "page < 100" by simp
  from full[of page] p have f: "page_ok client page" "length (page_items client page) = 50"
     "failures_from P 0 (page_items client page) = []"
     "get_prop (page_data client page) ''count'' = JNum c" by auto
  have ls: "length (successes P (page_items client page)) = 50"
    using length_successes_all[OF f(3)] f(2) by simp
  have lt: "length_lt P (length (acc @ successes P (page_items client page))) (JNum c)"
    using ls Suc.prems(3) p c by (simp add: length_lt_def)
  have ih: "fetch_pages P client (Suc page) (acc @ successes P (page_items client page)) lg =
           (Inr ((acc @ successes P (page_items client page)) @ concat (map (\<lambda>q. successes P (page_items client q)) [Suc page..<101])),
            lg @ [Warn_page_limit], [Suc page..<101])"
    using Suc.prems p ls by (intro Suc.IH) auto
  have up: "[page..<101] = page # [Suc page..<101]" using p by (simp add: upt_conv_Cons)
  show ?case
    using p f lt ih by (simp add: fetch_pages_ok page_warnings_def up)
qed


lemma pages_step_continue:
  assumes "page_ok client page" "\<not> 100 < Suc page" "length (page_items client page) = 50"
    "length_lt P (length (acc @ successes P (page_items client page)))
       (get_prop (page_data client page) ''count'')"
  shows "snd (snd (fetch_pages P client page acc lg)) =
     page # snd (snd (fetch_pages P client (Suc page) (acc @ successes P (page_items client page))
                        (lg @ page_warnings P client page)))"
  using assms by (simp add: fetch_pages_ok split: prod.splits)

lemma pages_step_stop:
  assumes "page_ok client page"
    "100 < Suc page \<or> \<not> (length (page_items client page) = 50 \<and>
       length_lt P (length (acc @ successes P (page_items client page)))
         (get_prop (page_data client page) ''count''))"
  shows "snd (snd (fetch_pages P client page acc lg)) = [page]"
  using assms by (auto simp add: fetch_pages_ok)

lemma pages_needed_bounds: "1 \<le> c \<Longrightarrow> 50 * (pages_needed c - 1) < c \<and> c \<le> 50 * pages_needed c \<and> 1 \<le> pages_needed c"
  by (simp add: pages_needed_def) presburger

lemma uniform_run:
  assumes c1: "1 \<le> c" and c2: "c \<le> 5000"
      and u: "uniform_upstream client c"
      and a: "50 dvd c \<longrightarrow> all_convert P client c"
  shows "pages_needed c - page = k \<Longrightarrow> page < pages_needed c \<Longrightarrow> length acc \<le> 50 * page \<Longrightarrow>
         (50 dvd c \<longrightarrow> length acc = 50 * page) \<Longrightarrow>
         snd (snd (fetch_pages P client page acc lg)) = [page..<pages_needed c]"
proof (induction k arbitrary: page acc lg)
  case 0
  then show ?case by simp
next
  case (Suc k)
  let ?n = "pages_needed c"
  let ?xs = "page_items client page"
  from pages_needed_bounds[OF c1] have nb: "50 * (?n - 1) < c" "c \<le> 50 * ?n" "1 \<le> ?n" by auto
  have n100: "?n \<le> 100" using c2 by (simp add: pages_needed_def)
  from u Suc.prems(2) have pg: "page_ok client page"
      "get_prop (page_data client page) ''count'' = JNum (int c)"
      "length ?xs = (if Suc page < ?n then 50 else c - 50 * (?n - 1))"
    by (auto simp: uniform_upstream_def list_all_iff)
  have small: "\<not> 100 < Suc page" using Suc.prems(2) n100 by simp
  have le: "length (successes P ?xs) \<le> length ?xs" by (rule length_successes_le)
  have conv: "50 dvd c \<Longrightarrow> length (successes P ?xs) = length ?xs"
  proof -
    assume "50 dvd c"
    with a Suc.prems(2) have "failures_from P 0 ?xs = []"
      by (auto simp: all_convert_def list_all_iff)
    then show ?thesis by (rule length_successes_all)
  qed
  show ?case
  proof (cases "Suc page < ?n")
    case True
    then have len: "length ?xs = 50" using pg(3) by simp
    have "length (acc @ successes P ?xs) \<le> 50 * Suc page" using le len Suc.prems(3) by simp
    also have "\<dots> \<le> 50 * (?n - 1)" using True by simp
    finally have lt: "length_lt P (length (acc @ successes P ?xs)) (JNum (int c))"
      using nb(1) by (simp add: length_lt_def)
    have ih: "snd (snd (fetch_pages P client (Suc page) (acc @ successes P ?xs)
                (lg @ page_warnings P client page))) = [Suc page..<?n]"
    proof (rule Suc.IH)
      show "?n - Suc page = k" using Suc.prems(1) by simp
      show "Suc page < ?n" by (rule True)
      show "length (acc @ successes P ?xs) \<le> 50 * Suc page" using le len Suc.prems(3) by simp
      show "50 dvd c \<longrightarrow> length (acc @ successes P ?xs) = 50 * Suc page"
        using conv len Suc.prems(4) by simp
    qed
    have up: "[page..<?n] = page # [Suc page..<?n]" using Suc.prems(2) by (simp add: upt_conv_Cons)
    show ?thesis
      using pages_step_continue[OF pg(1) small len, of P acc lg] lt ih pg(2) by (simp add: up)
  next
    case False
    with Suc.prems(2) have last: "Suc page = ?n" by simp
    then have len: "length ?xs = c - 50 * (?n - 1)" using pg(3) by simp
    have up: "[page..<?n] = [page]" using last by (metis upt_rec lessI upt_eq_Nil_conv le_refl)
    have stop: "\<not> (length ?xs = 50 \<and> length_lt P (length (acc @ successes P ?xs)) (JNum (int c)))"
    proof
      assume h: "length ?xs = 50 \<and> length_lt P (length (acc @ successes P ?xs)) (JNum (int c))"
      then have cn: "50 * ?n = c" using len nb by (cases "pages_needed c") auto
      then have d: "50 dvd c" by (metis dvd_triv_left)
      with conv h Suc.prems(4) have "length (acc @ successes P ?xs) = 50 * page + 50" by simp
      with cn last have "length (acc @ successes P ?xs) = c" by auto
      with h show False by (simp add: length_lt_def)
    qed
    show ?thesis
      using pages_step_stop[OF pg(1), of P acc lg] stop pg(2) by (simp add: up)
  qed
qed

text \<open>
  Claim C3, as amended. For a total count between 1 and 5000 that every page reports,
  with 50 items on each page but the last and the remainder on the last, and, when the
  count is a multiple of 50, with no item dropped by the conversion, the pages requested
  are exactly the first \<open>ceil(count / 50)\<close> ones. The witness is the count 75: two
  requests, for 50 and for 25 items.
\<close>

theorem fetch_requests_ceil_count_pages:
  assumes "1 \<le> c" and "c \<le> 5000"
      and "uniform_upstream client c"
      and "50 dvd c \<longrightarrow> all_convert P client c"
  shows "requested_pages P client = [0..<pages_needed c] \<and>
         length (requested_pages P client) = pages_needed c"
proof -
  have "1 \<le> pages_needed c" using pages_needed_bounds[OF assms(1)] by simp
  then have "snd (snd (fetch_pages P client 0 [] [])) = [0..<pages_needed c]"
    by (intro uniform_run[OF assms, of 0 "pages_needed c"]) auto
  then show ?thesis by (simp add: requested_pages_eq)
qed

lemma page_facts:
  "page_ok (\<lambda>p. Inr (f p)) q = is_array (get_prop (f q) ''items'')"
  "page_data (\<lambda>p. Inr (f p)) q = f q"
  by (simp_all add: page_ok_def page_data_def)

lemma page_body_props:
  "get_prop (page_body xs n) ''items'' = JArr xs"
  "get_prop (page_body xs n) ''count'' = JNum n"
  by (simp_all add: page_body_def)

lemma client_75_facts:
  "page_ok client_75 p" "get_prop (page_data client_75 p) ''count'' = JNum 75"
  "page_items client_75 p = (if p = 0 then replicate 50 sample_item else if p = 1 then replicate 25 sample_item else [])"
  by (simp_all add: client_75_def page_ok_def page_data_def page_items_def page_body_props)

theorem fetch_requests_ceil_count_pages_witness:
  "(1::nat) \<le> 75 \<and> (75::nat) \<le> 5000 \<and> uniform_upstream client_75 75 \<and>
   \<not> 50 dvd (75::nat) \<and>
   requested_pages utc_host client_75 = [0, 1]"
proof -
  have n: "pages_needed 75 = 2" by (simp add: pages_needed_def)
  have up: "[0..<2] = [0, Suc 0]" by (simp add: upt_rec)
  have u: "uniform_upstream client_75 75"
    by (simp add: uniform_upstream_def n up client_75_facts)
  have d: "\<not> 50 dvd (75::nat)" by presburger
  show ?thesis
    using fetch_requests_ceil_count_pages[of 75 client_75 utc_host] u d by (simp add: n up)
qed

lemma always_full_facts:
  "page_ok always_full_client p" "get_prop (page_data always_full_client p) ''count'' = JNum 1000000"
  "page_items always_full_client p = replicate 50 sample_item"
  by (simp_all add: always_full_client_def page_ok_def page_data_def page_items_def page_body_props)

lemma concat_map_replicate: "concat (map (\<lambda>q. replicate m x) ps) = replicate (m * length ps) x"
  by (induction ps) (simp_all add: replicate_add)

text \<open>
  Claim C4. The claim bounds the run by 100 page requests (5000 potential records). On
  an upstream that always answers with a full page and a large count, the run asks for
  the 101 pages 0 to 100, returns 5050 records and then warns that the limit of 100 was
  reached.
\<close>

theorem fetch_full_pages_issues_101_requests:
  "getRecentBookmarks utc_host always_full_client =
     (Inr (replicate 5050 sample_bookmark), [Warn_page_limit], [0..<101])"
proof -
  have "fetch_pages utc_host always_full_client 0 [] [] =
      (Inr ([] @ concat (map (\<lambda>q. successes utc_host (page_items always_full_client q)) [0..<101])),
       [] @ [Warn_page_limit], [0..<101])"
    by (rule all_full_run[where c = 1000000 and k = 100])
       (simp_all add: always_full_facts failures_replicate_sample)
  moreover have "concat (map (\<lambda>q. replicate 50 sample_bookmark) [0..<101]) = replicate 5050 sample_bookmark"
    by (simp add: concat_map_replicate)
  ultimately show ?thesis
    by (simp add: getRecentBookmarks_def always_full_facts successes_replicate_sample)
qed


text \<open>The loop is total, and no run asks for more than 101 pages.\<close>

lemma pages_length_bound:
  "101 - page = k \<Longrightarrow> page \<le> 100 \<Longrightarrow>
   length (snd (snd (fetch_pages P client page acc lg))) \<le> 101 - page"
proof (induction k arbitrary: page acc lg)
  case 0
  then show ?case by simp
next
  case (Suc k)
  show ?case
  proof (cases "page_ok client page")
    case False
    then show ?thesis using Suc.prems by (simp add: fetch_pages_not_ok)
  next
    case ok: True
    show ?thesis
    proof (cases "100 < Suc page \<or> \<not> (length (page_items client page) = 50 \<and>
       length_lt P (length (acc @ successes P (page_items client page)))
         (get_prop (page_data client page) ''count''))")
      case True
      then show ?thesis using Suc.prems pages_step_stop[OF ok True] by simp
    next
      case False
      then have p: "page < 100" by simp
      have "length (snd (snd (fetch_pages P client (Suc page)
              (acc @ successes P (page_items client page)) (lg @ page_warnings P client page))))
            \<le> 101 - Suc page"
        using Suc.prems p by (intro Suc.IH) auto
      then show ?thesis
        using False pages_step_continue[OF ok, of P acc lg] p by simp
    qed
  qed
qed

lemma requested_pages_at_most_101: "length (requested_pages P client) \<le> 101"
  using pages_length_bound[of 0 101 P client "[]" "[]"] by (simp add: requested_pages_eq)

text \<open>
  Claim C2, as amended. While fewer than 100 pages have been asked for (counting the next
  one), after a page that was fetched with a usable item list a further page is requested
  if and only if that page held exactly 50 raw items and the number of records
  accumulated so far is strictly below the count reported by that same page. When the
  first page holds fewer than 50 items, page 0 is the only page requested, whatever
  count it reports.
\<close>

theorem fetch_continues_iff_full_page_and_below_own_count:
  "(p \<in> set (requested_pages P client) \<and> page_ok client p \<and> Suc p < 100 \<longrightarrow>
      (Suc p \<in> set (requested_pages P client) \<longleftrightarrow> continues_by_own_count P client p)) \<and>
   (length (page_items client 0) < 50 \<longrightarrow> requested_pages P client = [0])"
proof (intro conjI impI)
  assume h: "p \<in> set (requested_pages P client) \<and> page_ok client p \<and> Suc p < 100"
  have "records_before P client 0 = []" by (simp add: records_before_def)
  with pages_char[of 0 101 P client "[]" "requested_pages P client"]
  have "\<forall>p\<in>set (requested_pages P client). Suc p \<le> 100 \<longrightarrow> page_ok client p \<longrightarrow>
         (Suc p \<in> set (requested_pages P client) \<longleftrightarrow> continues_by_own_count P client p)"
    by (simp add: requested_pages_eq)
  with h show "Suc p \<in> set (requested_pages P client) \<longleftrightarrow> continues_by_own_count P client p"
    by auto
next
  assume h: "length (page_items client 0) < 50"
  show "requested_pages P client = [0]"
  proof (cases "page_ok client 0")
    case True
    from pages_step_stop[OF True, of P "[]" "[]"] h show ?thesis by (simp add: requested_pages_eq)
  next
    case False
    then show ?thesis by (simp add: requested_pages_eq fetch_pages_not_ok)
  qed
qed

lemma drifting_facts:
  "page_ok drifting_client p"
  "get_prop (page_data drifting_client p) ''count'' = JNum (if p = 0 then 60 else 1000)"
  "page_items drifting_client p = (if p = 0 \<or> p = 1 then replicate 50 sample_item else [])"
  by (simp_all add: drifting_client_def page_ok_def page_data_def page_items_def page_body_props)

lemma drifting_pages: "requested_pages utc_host drifting_client = [0, 1, 2]"
proof -
  have 2: "snd (snd (fetch_pages utc_host drifting_client (Suc (Suc 0)) acc lg)) = [Suc (Suc 0)]"
    for acc lg
    by (rule pages_step_stop) (simp_all add: drifting_facts)
  have 1: "snd (snd (fetch_pages utc_host drifting_client (Suc 0) (replicate 50 sample_bookmark) lg))
             = [Suc 0, Suc (Suc 0)]" for lg
    using pages_step_continue[of drifting_client "Suc 0" utc_host "replicate 50 sample_bookmark" lg]
    by (simp add: drifting_facts successes_replicate_sample length_lt_def 2)
  have "requested_pages utc_host drifting_client = [0, Suc 0, Suc (Suc 0)]"
    using pages_step_continue[of drifting_client 0 utc_host "[]" "[]"]
    by (simp add: drifting_facts successes_replicate_sample length_lt_def 1 requested_pages_eq)
  then show ?thesis by (simp add: numeral_2_eq_2)
qed

lemma drifting_records: "length (records_before utc_host drifting_client (Suc (Suc 0))) = 100"
  by (simp add: records_before_def drifting_facts successes_replicate_sample)

theorem fetch_continues_iff_full_page_and_below_own_count_witness:
  "1 \<in> set (requested_pages utc_host drifting_client) \<and> page_ok drifting_client 1 \<and>
   Suc 1 < 100 \<and> Suc 1 \<in> set (requested_pages utc_host drifting_client) \<and>
   continues_by_own_count utc_host drifting_client 1 \<and>
   length (page_items client_empty 0) < 50 \<and> requested_pages utc_host client_empty = [0]"
proof -
  have e: "length (page_items client_empty 0) < 50"
    by (simp add: client_empty_def page_data_def page_items_def page_body_props)
  show ?thesis
    using fetch_continues_iff_full_page_and_below_own_count[of 1 utc_host drifting_client] fetch_continues_iff_full_page_and_below_own_count[of 0 utc_host client_empty] e
    by (simp add: drifting_pages drifting_facts)
qed

text \<open>
  Claim C2 as stated compares with the count of the first page. An upstream that reports
  60 on page 0 and 1000 on page 1, with 50 items on each: after page 1 the accumulated
  100 records are not below 60, and page 2 is requested all the same.
\<close>

theorem fetch_continues_past_first_page_count:
  "requested_pages utc_host drifting_client = [0, 1, 2] \<and> page_ok drifting_client 1 \<and>
   get_prop (page_data drifting_client 0) ''count'' = JNum 60 \<and>
   length (records_before utc_host drifting_client (Suc 1)) = 100 \<and>
   \<not> continues_by_first_count utc_host drifting_client 1"
  using drifting_records
  by (simp add: drifting_pages drifting_facts continues_by_first_count_def length_lt_def)

lemma client_6000_facts:
  "page_ok client_6000 p" "get_prop (page_data client_6000 p) ''count'' = JNum 6000"
  "page_items client_6000 p = (if p < 120 then replicate 50 sample_item else [])"
  by (simp_all add: client_6000_def page_ok_def page_data_def page_items_def page_body_props)

text \<open>
  Claim C3 as stated speaks of every total count. With the count 6000, served as 120
  full pages, the run makes 101 requests and not 120.
\<close>

theorem fetch_stops_at_ceiling_before_ceil_count:
  "uniform_upstream client_6000 6000 \<and> all_convert utc_host client_6000 6000 \<and>
   pages_needed 6000 = 120 \<and> length (requested_pages utc_host client_6000) = 101"
proof -
  have n: "pages_needed 6000 = 120" by (simp add: pages_needed_def)
  have u: "uniform_upstream client_6000 6000"
    by (simp add: uniform_upstream_def n list_all_iff client_6000_facts)
  have a: "all_convert utc_host client_6000 6000"
    by (simp add: all_convert_def n list_all_iff client_6000_facts failures_replicate_sample)
  have "fetch_pages utc_host client_6000 0 [] [] =
      (Inr ([] @ concat (map (\<lambda>q. successes utc_host (page_items client_6000 q)) [0..<101])),
       [] @ [Warn_page_limit], [0..<101])"
    by (rule all_full_run[where c = 6000 and k = 100])
       (simp_all add: client_6000_facts failures_replicate_sample)
  then have "length (requested_pages utc_host client_6000) = 101"
    by (simp add: requested_pages_eq)
  with n u a show ?thesis by simp
qed

text \<open>
  Two more runs on which the number of requests is not \<open>ceil(count / 50)\<close>: the count 0
  costs one request, and a count of 50 whose single page has one malformed item costs
  two, since the 49 accumulated records stay below the count.
\<close>

lemma count_zero_one_request:
  "requested_pages P client_empty = [0] \<and> pages_needed 0 = 0"
proof -
  have "page_ok client_empty 0" "page_items client_empty 0 = []"
    by (simp_all add: client_empty_def page_ok_def page_data_def page_items_def page_body_props)
  then show ?thesis
    using pages_step_stop[of client_empty 0 P "[]" "[]"]
    by (simp add: requested_pages_eq pages_needed_def)
qed

lemma dropped_item_second_request:
  "requested_pages utc_host client_50_one_bad = [0, 1] \<and> pages_needed 50 = 1"
proof -
  have f: "page_ok client_50_one_bad p"
    "get_prop (page_data client_50_one_bad p) ''count'' = JNum 50"
    "page_items client_50_one_bad p = (if p = 0 then item_without_id # replicate 49 sample_item else [])" for p
    by (simp_all add: client_50_one_bad_def page_ok_def page_data_def page_items_def page_body_props)
  have 1: "snd (snd (fetch_pages utc_host client_50_one_bad (Suc 0) acc lg)) = [Suc 0]" for acc lg
    by (rule pages_step_stop) (simp_all add: f)
  show ?thesis
    using pages_step_continue[of client_50_one_bad 0 utc_host "[]" "[]"]
    by (simp add: f successes_Cons item_without_id_fails successes_replicate_sample length_lt_def 1
        requested_pages_eq pages_needed_def)
qed

subsection \<open>Grouping by folder\<close>

lemma map_of_replace:
  "map_of (map (\<lambda>kv. if fst kv = k then (k, v) else kv) g) k' =
     (if k' = k then (if k \<in> fst ` set g then Some v else None) else map_of g k')"
  by (induction g) force+

lemma map_of_obj_set: "map_of (obj_set g k v) k' = (if k' = k then Some v else map_of g k')"
proof (cases "k \<in> fst ` set g")
  case True
  then show ?thesis by (simp add: obj_set_def map_of_replace)
next
  case False
  then have "map_of g k = None" by (simp add: map_of_eq_None_iff)
  with False show ?thesis by (auto simp: obj_set_def map_add_def split: option.splits)
qed

lemma keys_obj_set:
  "map fst (obj_set g k v) = (if k \<in> fst ` set g then map fst g else map fst g @ [k])"
  by (auto simp: obj_set_def intro!: map_idI)

lemma set_keys_obj_set: "fst ` set (obj_set g k v) = insert k (fst ` set g)"
proof -
  have "set (map fst (obj_set g k v)) = insert k (set (map fst g))"
    unfolding keys_obj_set by auto
  then show ?thesis by simp
qed

lemma distinct_keys_obj_set: "distinct (map fst g) \<Longrightarrow> distinct (map fst (obj_set g k v))"
  unfolding keys_obj_set by auto

lemma group_each_char:
  "distinct (map fst g) \<Longrightarrow> group_each bs g = Inr g' \<Longrightarrow>
     distinct (map fst g') \<and> fst ` set g' = fst ` set g \<union> folder_name ` set bs \<and>
     (\<forall>k. members g' k = members g k @ filter (\<lambda>b. folder_name b = k) bs)"
proof (induction bs arbitrary: g)
  case Nil
  then show ?case by simp
next
  case (Cons b bs)
  let ?k = "folder_name b"
  let ?g1 = "if map_of g ?k = None \<and> ?k \<notin> set object_prototype_keys then obj_set g ?k [] else g"
  from Cons.prems(2) obtain m where m: "map_of ?g1 ?k = Some m"
     and rest: "group_each bs (obj_set ?g1 ?k (m @ [b])) = Inr g'"
    by (auto simp: folder_name_def Let_def split: option.splits if_splits)
  let ?g2 = "obj_set ?g1 ?k (m @ [b])"
  have d1: "distinct (map fst ?g1)" using Cons.prems(1) by (simp add: distinct_keys_obj_set)
  have d2: "distinct (map fst ?g2)" using d1 by (rule distinct_keys_obj_set)
  have k1: "?k \<in> fst ` set ?g1" using m by (metis map_of_eq_None_iff option.distinct(1))
  have s1: "fst ` set ?g1 = insert ?k (fst ` set g)"
  proof (cases "map_of g ?k = None \<and> ?k \<notin> set object_prototype_keys")
    case True then show ?thesis by (simp add: set_keys_obj_set)
  next
    case False with k1 show ?thesis by auto
  qed
  have s2: "fst ` set ?g2 = insert ?k (fst ` set g)" using s1 by (simp only: set_keys_obj_set) simp
  have mem1: "members ?g1 k = members g k" for k
    by (auto simp: members_def map_of_obj_set)
  have mem2: "members ?g2 k = members g k @ (if ?k = k then [b] else [])" for k
    using m mem1[of k] by (auto simp: members_def map_of_obj_set split: option.splits)
  from Cons.IH[OF d2 rest] have ih: "distinct (map fst g')"
     "fst ` set g' = fst ` set ?g2 \<union> folder_name ` set bs"
     "\<And>k. members g' k = members ?g2 k @ filter (\<lambda>b. folder_name b = k) bs" by auto
  show ?case
  proof (intro conjI allI)
    show "distinct (map fst g')" by (rule ih(1))
    show "fst ` set g' = fst ` set g \<union> folder_name ` set (b # bs)"
      unfolding ih(2) s2 by auto
    fix k show "members g' k = members g k @ filter (\<lambda>b. folder_name b = k) (b # bs)"
      unfolding ih(3) mem2 by simp
  qed
qed

lemma group_each_succeeds:
  "\<forall>b\<in>set bs. folder_name b \<notin> set object_prototype_keys \<Longrightarrow> \<exists>g'. group_each bs g = Inr g'"
proof (induction bs arbitrary: g)
  case Nil then show ?case by simp
next
  case (Cons b bs)
  then show ?case
    by (auto simp: folder_name_def Let_def map_of_obj_set split: option.splits)
qed

lemma mset_insert_by: "mset (insert_by cmp x xs) = add_mset x (mset xs)"
  by (induction xs) auto

lemma mset_sort_by: "mset (sort_by cmp xs) = mset xs"
  by (induction xs) (auto simp: sort_by_def mset_insert_by)

lemma mset_entries: "mset (entries obj) = mset obj"
  by (simp add: entries_def)

lemma foldl_obj_set_fresh:
  "distinct ks \<Longrightarrow> set ks \<inter> fst ` set acc = {} \<Longrightarrow>
   foldl (\<lambda>obj k. obj_set obj k (f k)) acc ks = acc @ map (\<lambda>k. (k, f k)) ks"
proof (induction ks arbitrary: acc)
  case Nil then show ?case by simp
next
  case (Cons k ks)
  have "obj_set acc k (f k) = acc @ [(k, f k)]" using Cons.prems by (simp add: obj_set_def)
  moreover have "foldl (\<lambda>obj k. obj_set obj k (f k)) (acc @ [(k, f k)]) ks = (acc @ [(k, f k)]) @ map (\<lambda>k. (k, f k)) ks"
    using Cons.prems by (intro Cons.IH) auto
  ultimately show ?case by simp
qed


lemma folder_partition:
  "distinct ks \<Longrightarrow>
   (\<Sum>k\<leftarrow>ks. mset (filter (\<lambda>b. f b = k) bs)) = mset (filter (\<lambda>b. f b \<in> set ks) bs)"
proof (induction ks)
  case Nil then show ?case by simp
next
  case (Cons k ks)
  have "mset (filter (\<lambda>b. f b = k \<or> f b \<in> set ks) bs) =
        mset (filter (\<lambda>b. f b = k) bs) + mset (filter (\<lambda>b. f b \<in> set ks) bs)"
    using Cons.prems by (induction bs) auto
  with Cons show ?case by simp
qed

text \<open>The object returned by the grouping, once the grouping succeeds.\<close>

lemma groupBookmarksByFolder_char:
  assumes "groupBookmarksByFolder P bs = Inr sg"
  shows "distinct (map fst sg) \<and> set (map fst sg) = folder_name ` set bs \<and>
         (\<forall>(k, m) \<in> set sg. m = sort_by by_createdAt_desc (filter (\<lambda>b. folder_name b = k) bs))"
proof -
  from assms obtain g where g: "group_each bs [] = Inr g"
    and sg: "sg = foldl (\<lambda>sortedGrouped folderName. obj_set sortedGrouped folderName
                (sort_by by_createdAt_desc (members g folderName))) []
                (sort_by (localeCompare P) (keys g))"
    by (auto simp: groupBookmarksByFolder_def members_def split: sum.splits)
  from group_each_char[OF _ g] have gc: "distinct (map fst g)" "set (map fst g) = folder_name ` set bs"
     "\<And>k. members g k = filter (\<lambda>b. folder_name b = k) bs"
    by (simp_all add: members_def)
  let ?ks = "sort_by (localeCompare P) (keys g)"
  have "mset (map fst (entries g)) = mset (map fst g)" by (metis mset_entries mset_map)
  then have mk: "mset ?ks = mset (map fst g)"
    by (simp add: mset_sort_by keys_def)
  have dk: "distinct ?ks" using mk gc(1) by (metis mset_eq_imp_distinct_iff)
  have sk: "set ?ks = folder_name ` set bs" using mk gc(2) by (metis mset_eq_setD)
  have "sg = map (\<lambda>k. (k, sort_by by_createdAt_desc (members g k))) ?ks"
    unfolding sg using foldl_obj_set_fresh[OF dk, of "[]"] by simp
  then have sg': "sg = map (\<lambda>k. (k, sort_by by_createdAt_desc (filter (\<lambda>b. folder_name b = k) bs))) ?ks"
    by (simp add: gc(3))
  have "map fst sg = ?ks" unfolding sg' by (simp add: comp_def)
  with dk sk sg' show ?thesis by auto
qed

lemma groupBookmarksByFolder_succeeds:
  "\<forall>b\<in>set bs. folder_name b \<notin> set object_prototype_keys \<Longrightarrow>
   \<exists>sg. groupBookmarksByFolder P bs = Inr sg"
  using group_each_succeeds[of bs "[]"]
  by (auto simp: groupBookmarksByFolder_def)

lemma entries_char:
  assumes "groupBookmarksByFolder P bs = Inr sg"
  shows "distinct (map fst (entries sg)) \<and> set (map fst (entries sg)) = folder_name ` set bs \<and>
         (\<forall>(k, m) \<in> set (entries sg). mset m = mset (filter (\<lambda>b. folder_name b = k) bs)) \<and>
         mset (concat (map snd (entries sg))) = mset bs"
proof -
  from groupBookmarksByFolder_char[OF assms] have c: "distinct (map fst sg)"
    "set (map fst sg) = folder_name ` set bs"
    "\<forall>(k, m) \<in> set sg. m = sort_by by_createdAt_desc (filter (\<lambda>b. folder_name b = k) bs)"
    by auto
  let ?es = "entries sg"
  have me: "mset ?es = mset sg" by (rule mset_entries)
  then have mk: "mset (map fst ?es) = mset (map fst sg)" by (metis mset_map)
  have d: "distinct (map fst ?es)" using mk c(1) by (metis mset_eq_imp_distinct_iff)
  have s: "set (map fst ?es) = folder_name ` set bs" using mk c(2) by (metis mset_eq_setD)
  have se: "set ?es = set sg" using me by (metis mset_eq_setD)
  have each: "\<forall>(k, m) \<in> set ?es. mset m = mset (filter (\<lambda>b. folder_name b = k) bs)"
    using c(3) se by (auto simp: mset_sort_by)
  have "mset (concat (map snd ?es)) = (\<Sum>e\<leftarrow>?es. mset (snd e))"
    by (simp add: mset_concat comp_def)
  also have "\<dots> = (\<Sum>e\<leftarrow>?es. mset (filter (\<lambda>b. folder_name b = fst e) bs))"
    using each by (intro arg_cong[where f = sum_list] map_cong) auto
  also have "\<dots> = (\<Sum>k\<leftarrow>map fst ?es. mset (filter (\<lambda>b. folder_name b = k) bs))"
    by (simp add: comp_def)
  also have "\<dots> = mset (filter (\<lambda>b. folder_name b \<in> set (map fst ?es)) bs)"
    by (rule folder_partition[OF d])
  also have "\<dots> = mset bs" using s by simp
  finally show ?thesis using d s each by blast
qed

subsection \<open>The lines of a digest body\<close>

lemma join_Cons: "ys \<noteq> [] \<Longrightarrow> join sep (x # ys) = x @ sep @ join sep ys"
  by (cases ys) auto

lemma join_append:
  "xs \<noteq> [] \<Longrightarrow> ys \<noteq> [] \<Longrightarrow> join sep (xs @ ys) = join sep xs @ sep @ join sep ys"
  by (induction sep xs rule: join.induct) (auto simp: join_Cons)

lemma join_nl_Cons: "join [c] (x # ys) = x @ concat (map ((#) c) ys)"
  by (induction ys arbitrary: x) (auto simp: join_Cons)

lemma foldl_append_lines:
  "foldl (\<lambda>section b. section @ 10 # f b) acc bs = acc @ concat (map (\<lambda>b. 10 # f b) bs)"
  by (induction bs arbitrary: acc) auto

lemma formatFolderSection_lines:
  "formatFolderSection k m = join [10] (section_lines (k, m))"
  by (simp add: formatFolderSection_def foldl_append_lines join_nl_Cons section_lines_def comp_def)

lemma lines_of_plain: "10 \<notin> set l \<Longrightarrow> lines_of l = [l]"
  by (induction l) auto

lemma lines_of_append: "10 \<notin> set l \<Longrightarrow> lines_of (l @ 10 # rest) = l # lines_of rest"
  by (induction l) (auto simp: lines_of_plain split: list.splits)

lemma lines_of_join:
  "ls \<noteq> [] \<Longrightarrow> \<forall>l\<in>set ls. 10 \<notin> set l \<Longrightarrow> lines_of (join [10] ls) = ls"
proof (induction ls)
  case Nil then show ?case by simp
next
  case (Cons l ls)
  show ?case
  proof (cases ls)
    case Nil with Cons.prems show ?thesis by (simp add: lines_of_plain)
  next
    case (Cons a as)
    then have "join [10] (l # ls) = l @ 10 # join [10] ls" by simp
    with Cons.IH Cons.prems Cons show ?thesis by (simp add: lines_of_append)
  qed
qed

lemma join_blank_nonempty: "lss \<noteq> [] \<Longrightarrow> \<forall>ls\<in>set lss. ls \<noteq> [] \<Longrightarrow> join [[]] lss \<noteq> []"
  by (induction lss rule: induct_list012) auto

lemma join_sections:
  "\<forall>ls\<in>set lss. ls \<noteq> [] \<Longrightarrow>
   join [10, 10] (map (join [10]) lss) = join [10] (join [[]] lss)"
proof (induction lss rule: induct_list012)
  case 1 then show ?case by simp
next
  case (2 ls) then show ?case by simp
next
  case (3 ls ms rest)
  let ?R = "join [[]] (ms # rest)"
  have R: "?R \<noteq> []" using 3(3) by (intro join_blank_nonempty) auto
  have "join [10] (join [[]] (ls # ms # rest)) = join [10] (ls @ ([] # ?R))" by simp
  also have "\<dots> = join [10] ls @ [10] @ join [10] ([] # ?R)"
    using 3(3) by (intro join_append) auto
  also have "join [10] ([] # ?R) = [10] @ join [10] ?R" using R by (simp add: join_Cons)
  finally show ?case using 3 by simp
qed

lemma filter_join_blank:
  "\<not> Q [] \<Longrightarrow> filter Q (join [[]] lss) = concat (map (filter Q) lss)"
  by (induction lss rule: induct_list012) auto

lemma decimal_digits: "c \<in> set (decimal n) \<Longrightarrow> 48 \<le> c \<and> c \<le> 57"
proof (induction n rule: decimal.induct)
  case (1 n)
  show ?case
  proof (cases "n < 10")
    case True
    with 1(2) show ?thesis by (subst (asm) decimal.simps) auto
  next
    case False
    from 1(2) have "c \<in> set (decimal (n div 10)) \<or> c = 48 + n mod 10"
      by (subst (asm) decimal.simps) (use False in auto)
    with 1(1)[OF False] show ?thesis by auto
  qed
qed

lemma entries_nonempty:
  assumes "groupBookmarksByFolder P bs = Inr sg" "bs \<noteq> []"
  shows "entries sg \<noteq> []"
proof -
  from entries_char[OF assms(1)] have "set (map fst (entries sg)) = folder_name ` set bs" by simp
  with assms(2) show ?thesis by (cases "entries sg") auto
qed

lemma section_lines_nonempty: "section_lines e \<noteq> []"
  by (simp add: section_lines_def)

lemma body_join:
  assumes "formatBookmarksToEmailBody P (Some bs) opts = Inr body" and "bs \<noteq> []"
  shows "\<exists>sg. groupBookmarksByFolder P bs = Inr sg \<and>
           body = join [10]
             ((if includeHeader opts then header_lines (length bs) (dateRange opts) else []) @
              join [[]] (map section_lines (entries sg)))"
proof -
  from assms obtain sg where sg: "groupBookmarksByFolder P bs = Inr sg"
    and body: "body = (if includeHeader opts
                       then formatHeader (length bs) (dateRange opts) @ [10, 10] else []) @
                 join [10, 10] (map (\<lambda>(k, m). formatFolderSection k m) (entries sg))"
    by (auto simp: formatBookmarksToEmailBody_def split: sum.splits)
  let ?L = "join [[]] (map section_lines (entries sg))"
  have "map (\<lambda>(k, m). formatFolderSection k m) (entries sg) =
        map (join [10]) (map section_lines (entries sg))"
    by (simp add: formatFolderSection_lines case_prod_beta)
  then have secs: "join [10, 10] (map (\<lambda>(k, m). formatFolderSection k m) (entries sg)) = join [10] ?L"
    by (simp only: ) (rule join_sections, simp add: section_lines_nonempty)
  have L: "?L \<noteq> []"
    using entries_nonempty[OF sg assms(2)]
    by (intro join_blank_nonempty) (auto simp: section_lines_nonempty)
  have hdr: "formatHeader n r @ [10, 10] @ join [10] ?L = join [10] (header_lines n r @ ?L)" for n r
    using L by (simp add: formatHeader_def header_lines_def join_Cons)
  show ?thesis
    using sg body secs hdr[of "length bs" "dateRange opts"] by auto
qed

lemma no_nl_consts:
  "10 \<notin> set digest_title" "10 \<notin> set total_prefix" "10 \<notin> set total_suffix"
  "10 \<notin> set unsorted" "10 \<notin> set favorite_mark" "10 \<notin> set (ascii ''h4. '')"
  by (simp_all add: digest_title_def total_prefix_def total_suffix_def unsorted_def
      favorite_mark_def ascii_def)

lemma no_nl_decimal: "10 \<notin> set (decimal n)"
  using decimal_digits[of 10 n] by auto

lemma no_nl_range: "(\<forall>r. dr = Some r \<longrightarrow> 10 \<notin> set r) \<Longrightarrow> 10 \<notin> set (range_suffix dr)"
  by (auto simp: range_suffix_def ascii_def split: option.splits)

lemma body_lines:
  assumes "formatBookmarksToEmailBody P (Some bs) opts = Inr body" and "bs \<noteq> []"
      and nl: "\<forall>b\<in>set bs. 10 \<notin> set (title b) \<and> 10 \<notin> set (url b) \<and> 10 \<notin> set (folder b)"
      and nr: "\<forall>r. dateRange opts = Some r \<longrightarrow> 10 \<notin> set r"
  shows "\<exists>sg. groupBookmarksByFolder P bs = Inr sg \<and>
           lines_of body =
             (if includeHeader opts then header_lines (length bs) (dateRange opts) else []) @
              join [[]] (map section_lines (entries sg))"
proof -
  from body_join[OF assms(1,2)] obtain sg where sg: "groupBookmarksByFolder P bs = Inr sg"
    and body: "body = join [10]
             ((if includeHeader opts then header_lines (length bs) (dateRange opts) else []) @
              join [[]] (map section_lines (entries sg)))" by blast
  let ?H = "if includeHeader opts then header_lines (length bs) (dateRange opts) else []"
  let ?L = "join [[]] (map section_lines (entries sg))"
  from entries_char[OF sg] have keys: "set (map fst (entries sg)) = folder_name ` set bs"
    and each: "\<forall>(k, m) \<in> set (entries sg). mset m = mset (filter (\<lambda>b. folder_name b = k) bs)"
    by auto
  have H: "\<forall>l\<in>set ?H. 10 \<notin> set l"
    using no_nl_range[OF nr] by (auto simp: header_lines_def no_nl_consts no_nl_decimal)
  have sec: "10 \<notin> set l" if e: "e \<in> set (entries sg)" and l: "l \<in> set (section_lines e)" for e l
  proof -
    obtain k m where km: "e = (k, m)" by (cases e)
    from e km keys have "k \<in> folder_name ` set bs" by force
    then have k: "10 \<notin> set k" using nl by (auto simp: folder_name_def no_nl_consts)
    from each e km have "mset m = mset (filter (\<lambda>b. folder_name b = k) bs)" by auto
    then have "set m \<subseteq> set bs" by (metis mset_eq_setD filter_is_subset)
    then have m: "\<forall>b\<in>set m. 10 \<notin> set (formatSingleBookmark b)"
      using nl by (auto simp: formatSingleBookmark_def no_nl_consts ascii_def)
    from l km k m show ?thesis by (auto simp: section_lines_def no_nl_consts)
  qed
  have inL: "l \<in> set (join [[]] lss) \<Longrightarrow> l = [] \<or> (\<exists>ls\<in>set lss. l \<in> set ls)"
    for l :: jstring and lss
    by (induction lss rule: induct_list012) auto
  have L: "\<forall>l\<in>set ?L. 10 \<notin> set l"
  proof
    fix l assume "l \<in> set ?L"
    from inL[OF this] sec show "10 \<notin> set l" by auto
  qed
  have "?L \<noteq> []"
    using entries_nonempty[OF sg assms(2)]
    by (intro join_blank_nonempty) (auto simp: section_lines_nonempty)
  then have ne: "?H @ ?L \<noteq> []" by simp
  have "lines_of (join [10] (?H @ ?L)) = ?H @ ?L"
    using H L by (intro lines_of_join[OF ne]) auto
  with sg body show ?thesis by auto
qed


lemma heading_line_hd: "is_heading_line l \<Longrightarrow> l \<noteq> [] \<and> hd l = 104"
  by (cases l) (auto simp: is_heading_line_def ascii_def)

lemma bookmark_line_hd: "is_bookmark_line l \<Longrightarrow> l \<noteq> [] \<and> hd l = 42"
  by (cases l) (auto simp: is_bookmark_line_def)

lemma heading_kinds:
  "is_heading_line (ascii ''h4. '' @ k)" "\<not> is_bookmark_line (ascii ''h4. '' @ k)"
  by (simp_all add: is_heading_line_def is_bookmark_line_def ascii_def)

lemma bookmark_kinds:
  "is_bookmark_line (formatSingleBookmark b)" "\<not> is_heading_line (formatSingleBookmark b)"
  by (simp_all add: is_heading_line_def is_bookmark_line_def ascii_def formatSingleBookmark_def)

lemma header_kinds:
  "filter is_heading_line (header_lines n r) = []" "filter is_bookmark_line (header_lines n r) = []"
proof -
  have "\<not> is_heading_line l \<and> \<not> is_bookmark_line l" if "l \<in> set (header_lines n r)" for l
    using that heading_line_hd[of l] bookmark_line_hd[of l]
    by (auto simp: header_lines_def digest_title_def total_prefix_def)
  then show "filter is_heading_line (header_lines n r) = []"
    "filter is_bookmark_line (header_lines n r) = []"
    by (simp_all add: filter_empty_conv)
qed

lemma section_kinds:
  "filter is_heading_line (section_lines e) = [ascii ''h4. '' @ fst e]"
  "filter is_bookmark_line (section_lines e) = map formatSingleBookmark (snd e)"
proof -
  have "filter is_heading_line (map formatSingleBookmark m) = []" for m
    by (simp add: filter_empty_conv bookmark_kinds)
  moreover have "filter is_bookmark_line (map formatSingleBookmark m) = map formatSingleBookmark m" for m
    by (simp add: filter_id_conv bookmark_kinds)
  ultimately show "filter is_heading_line (section_lines e) = [ascii ''h4. '' @ fst e]"
    "filter is_bookmark_line (section_lines e) = map formatSingleBookmark (snd e)"
    by (simp_all add: section_lines_def heading_kinds)
qed

lemma body_kinds:
  assumes "formatBookmarksToEmailBody P (Some bs) opts = Inr body" and "bs \<noteq> []"
      and "\<forall>b\<in>set bs. 10 \<notin> set (title b) \<and> 10 \<notin> set (url b) \<and> 10 \<notin> set (folder b)"
      and "\<forall>r. dateRange opts = Some r \<longrightarrow> 10 \<notin> set r"
  shows "\<exists>sg. groupBookmarksByFolder P bs = Inr sg \<and>
           filter is_heading_line (lines_of body) = map (\<lambda>k. ascii ''h4. '' @ k) (map fst (entries sg)) \<and>
           filter is_bookmark_line (lines_of body) =
             map formatSingleBookmark (concat (map snd (entries sg)))"
proof -
  from body_lines[OF assms] obtain sg where sg: "groupBookmarksByFolder P bs = Inr sg"
    and ls: "lines_of body =
             (if includeHeader opts then header_lines (length bs) (dateRange opts) else []) @
              join [[]] (map section_lines (entries sg))" by blast
  have nh: "\<not> is_heading_line []" and nb: "\<not> is_bookmark_line []"
    by (simp_all add: is_heading_line_def is_bookmark_line_def ascii_def)
  have "filter is_heading_line (lines_of body) = map (\<lambda>k. ascii ''h4. '' @ k) (map fst (entries sg))"
    unfolding ls by (simp add: header_kinds filter_join_blank[of is_heading_line] nh comp_def section_kinds)
  moreover have "filter is_bookmark_line (lines_of body) =
             map formatSingleBookmark (concat (map snd (entries sg)))"
    unfolding ls
    by (simp add: header_kinds filter_join_blank[of is_bookmark_line] nb comp_def section_kinds map_concat)
  ultimately show ?thesis using sg by blast
qed

lemma count_list_filter: "Q a \<Longrightarrow> count_list (filter Q xs) a = count_list xs a"
  by (induction xs) auto

lemma count_list_distinct: "distinct xs \<Longrightarrow> a \<in> set xs \<Longrightarrow> count_list xs a = 1"
  by (induction xs) (auto simp: count_list_0_iff)

text \<open>
  Claim C10, as amended. For a non-empty list of records none of whose folder names is
  the name of a property of \<open>Object.prototype\<close>, with no line feed in the titles, URLs,
  folders and date range label, the body is produced and its bookmark lines are exactly
  the rendered lines of the input records, each as often as its record occurs (none
  dropped, none duplicated); there are as many heading lines as there are distinct
  folder names, where an empty folder counts under the name of the placeholder, and the
  heading of the folder name of every record occurs exactly once.
\<close>

theorem body_has_one_line_per_record_and_one_heading_per_folder_name:
  assumes "bs \<noteq> []"
      and "\<forall>b\<in>set bs. folder_name b \<notin> set object_prototype_keys"
      and "\<forall>b\<in>set bs. 10 \<notin> set (title b) \<and> 10 \<notin> set (url b) \<and> 10 \<notin> set (folder b)"
      and "\<forall>r. dateRange opts = Some r \<longrightarrow> 10 \<notin> set r"
  shows "\<exists>body. formatBookmarksToEmailBody P (Some bs) opts = Inr body \<and>
           mset (filter is_bookmark_line (lines_of body)) = image_mset formatSingleBookmark (mset bs) \<and>
           length (filter is_bookmark_line (lines_of body)) = length bs \<and>
           length (filter is_heading_line (lines_of body)) = card (folder_name ` set bs) \<and>
           (\<forall>b\<in>set bs. count_list (lines_of body) (ascii ''h4. '' @ folder_name b) = 1)"
proof -
  from groupBookmarksByFolder_succeeds[OF assms(2), of P] \<open>bs \<noteq> []\<close>
  obtain body where body: "formatBookmarksToEmailBody P (Some bs) opts = Inr body"
    by (auto simp: formatBookmarksToEmailBody_def)
  from body_kinds[OF body assms(1,3,4)] obtain sg where sg: "groupBookmarksByFolder P bs = Inr sg"
    and h: "filter is_heading_line (lines_of body) = map (\<lambda>k. ascii ''h4. '' @ k) (map fst (entries sg))"
    and l: "filter is_bookmark_line (lines_of body) =
             map formatSingleBookmark (concat (map snd (entries sg)))" by blast
  from entries_char[OF sg] have d: "distinct (map fst (entries sg))"
    and k: "set (map fst (entries sg)) = folder_name ` set bs"
    and m: "mset (concat (map snd (entries sg))) = mset bs" by auto
  have 1: "mset (filter is_bookmark_line (lines_of body)) = image_mset formatSingleBookmark (mset bs)"
    unfolding l using m by (metis mset_map)
  then have 2: "length (filter is_bookmark_line (lines_of body)) = length bs"
    by (metis size_mset size_image_mset)
  have 3: "length (filter is_heading_line (lines_of body)) = card (folder_name ` set bs)"
    unfolding h using d k by (metis distinct_card length_map)
  have inj: "inj (\<lambda>k::jstring. ascii ''h4. '' @ k)" by (simp add: inj_def)
  have dh: "distinct (map (\<lambda>k. ascii ''h4. '' @ k) (map fst (entries sg)))"
    using d inj by (simp add: distinct_map inj_on_def)
  have 4: "count_list (lines_of body) (ascii ''h4. '' @ folder_name b) = 1" if "b \<in> set bs" for b
  proof -
    have "folder_name b \<in> set (map fst (entries sg))" using that k by auto
    then have "ascii ''h4. '' @ folder_name b \<in> set (map (\<lambda>k. ascii ''h4. '' @ k) (map fst (entries sg)))"
      by auto
    from count_list_distinct[OF dh this] show ?thesis
      unfolding h[symmetric] by (simp add: count_list_filter heading_kinds)
  qed
  from body 1 2 3 4 show ?thesis by blast
qed

subsection \<open>Concrete digests\<close>

lemmas eval_defs = formatBookmarksToEmailBody_def groupBookmarksByFolder_def Let_def obj_set_def
  keys_def entries_def is_array_index_def index_value_def is_digit_def sort_by_def
  formatFolderSection_def formatSingleBookmark_def bookmark_in_def object_prototype_keys_def
  ascii_def favorite_mark_def no_header_def with_header_def utc_host_def by_createdAt_desc_def
  unsorted_def

lemma nine_ten_body:
  "formatBookmarksToEmailBody utc_host (Some [bookmark_ten, bookmark_nine]) no_header =
     Inr (ascii ''h4. 9'' @ [10] @ formatSingleBookmark bookmark_nine @ [10, 10] @
          ascii ''h4. 10'' @ [10] @ formatSingleBookmark bookmark_ten)"
  by (simp add: eval_defs bookmark_nine_def bookmark_ten_def)

text \<open>
  Claim C7. The claim asks for the folder sections in collation order. The code sorts the
  folder names, but then stores the groups under these names in a plain object and reads
  them back with \<open>Object.entries\<close>, which lists keys that are array indices first, in
  numeric order. For two records in the folders \<open>10\<close> and \<open>9\<close> the collation puts
  \<open>10\<close> before \<open>9\<close>, and the body has the section of \<open>9\<close> first.
\<close>

theorem index_like_folder_sections_precede_collation_order:
  "formatBookmarksToEmailBody utc_host (Some [bookmark_ten, bookmark_nine]) no_header =
     Inr (ascii ''h4. 9'' @ [10] @ formatSingleBookmark bookmark_nine @ [10, 10] @
          ascii ''h4. 10'' @ [10] @ formatSingleBookmark bookmark_ten) \<and>
   localeCompare utc_host (folder bookmark_ten) (folder bookmark_nine) < 0"
  by (simp add: nine_ten_body) (simp add: utc_host_def ascii_def bookmark_ten_def bookmark_nine_def bookmark_in_def)

lemma merged_body:
  "formatBookmarksToEmailBody utc_host (Some [bookmark_no_folder, bookmark_unsorted]) no_header =
     Inr (join [10] [ascii ''h4. '' @ unsorted, formatSingleBookmark bookmark_unsorted,
                     formatSingleBookmark bookmark_no_folder])"
  by (simp add: eval_defs bookmark_no_folder_def bookmark_unsorted_def)

text \<open>
  A record whose folder is named like a property of \<open>Object.prototype\<close> makes the
  grouping throw: no body is produced.
\<close>

lemma prototype_name_crash:
  "formatBookmarksToEmailBody P (Some [bookmark_constructor]) opts = Inl TypeError"
  by (simp add: eval_defs bookmark_constructor_def)

lemma sample_fields:
  "title (bookmark_in f t c v) = t" "url (bookmark_in f t c v) = ascii ''https://example.com''"
  "folder (bookmark_in f t c v) = f" "isFavorite (bookmark_in f t c v) = v"
  "createdAt (bookmark_in f t c v) = c"
  by (simp_all add: bookmark_in_def)

lemma sample_line_no_nl: "10 \<notin> set t \<Longrightarrow> 10 \<notin> set (formatSingleBookmark (bookmark_in f t c v))"
  by (simp add: formatSingleBookmark_def sample_fields ascii_def favorite_mark_def)

text \<open>
  Claim C10 as stated counts one heading for each distinct folder value. Two records
  whose folders are the empty string and the text of the placeholder have two distinct
  folder values, and the body has one heading line, that of the placeholder; no heading
  line stands for the empty folder.
\<close>

theorem empty_folder_shares_the_unsorted_heading:
  "folder bookmark_no_folder \<noteq> folder bookmark_unsorted \<and>
   (\<exists>body. formatBookmarksToEmailBody utc_host (Some [bookmark_no_folder, bookmark_unsorted])
              no_header = Inr body \<and>
            filter is_heading_line (lines_of body) = [ascii ''h4. '' @ unsorted] \<and>
            count_list (lines_of body) (ascii ''h4. '' @ folder bookmark_no_folder) = 0)"
proof -
  let ?ls = "[ascii ''h4. '' @ unsorted, formatSingleBookmark bookmark_unsorted,
              formatSingleBookmark bookmark_no_folder]"
  have f: "folder bookmark_no_folder = []" "folder bookmark_unsorted = unsorted"
    by (simp_all add: bookmark_no_folder_def bookmark_unsorted_def sample_fields)
  have "\<forall>l\<in>set ?ls. 10 \<notin> set l"
    by (simp add: bookmark_no_folder_def bookmark_unsorted_def sample_line_no_nl ascii_def
        unsorted_def)
  then have ls: "lines_of (join [10] ?ls) = ?ls" by (intro lines_of_join) simp_all
  have h: "filter is_heading_line ?ls = [ascii ''h4. '' @ unsorted]"
    by (simp add: heading_kinds bookmark_kinds)
  have c: "count_list ?ls (ascii ''h4. '' @ []) = 0"
    by (simp add: count_list_0_iff unsorted_def)
       (simp add: formatSingleBookmark_def ascii_def)
  show ?thesis
    unfolding f using merged_body ls h c by (simp add: unsorted_def)
qed

theorem body_has_one_line_per_record_and_one_heading_per_folder_name_witness:
  "[bookmark_ten, bookmark_nine] \<noteq> [] \<and>
   folder_name bookmark_ten \<notin> set object_prototype_keys \<and>
   folder_name bookmark_nine \<notin> set object_prototype_keys \<and>
   (\<exists>body. formatBookmarksToEmailBody utc_host (Some [bookmark_ten, bookmark_nine]) with_header
              = Inr body \<and>
            length (filter is_bookmark_line (lines_of body)) = 2 \<and>
            length (filter is_heading_line (lines_of body)) = 2)"
proof -
  let ?bs = "[bookmark_ten, bookmark_nine]"
  have f: "folder_name bookmark_ten = ascii ''10''" "folder_name bookmark_nine = ascii ''9''"
    by (simp_all add: bookmark_ten_def bookmark_nine_def sample_fields folder_name_def ascii_def)
  have p: "\<forall>b\<in>set ?bs. folder_name b \<notin> set object_prototype_keys"
    by (simp add: f) (simp add: object_prototype_keys_def ascii_def)
  have n: "\<forall>b\<in>set ?bs. 10 \<notin> set (title b) \<and> 10 \<notin> set (url b) \<and> 10 \<notin> set (folder b)"
    by (simp add: bookmark_ten_def bookmark_nine_def sample_fields ascii_def)
  have r: "\<forall>r. dateRange with_header = Some r \<longrightarrow> 10 \<notin> set r"
    by (simp add: with_header_def)
  have c: "card (folder_name ` set ?bs) = 2" by (simp add: f ascii_def)
  from body_has_one_line_per_record_and_one_heading_per_folder_name[OF _ p n r, of utc_host] c
  obtain body where "formatBookmarksToEmailBody utc_host (Some ?bs) with_header = Inr body"
    "length (filter is_bookmark_line (lines_of body)) = 2"
    "length (filter is_heading_line (lines_of body)) = 2"
    by auto
  with p show ?thesis by auto
qed

end
